theory Spec2Isabelle
  imports Complex_Main
begin

section \<open>Data model of the maze game\<close>

text \<open>
  The maze game keeps a square grid of cells. Every cell stores its own coordinates,
  four wall flags and the \<open>visited\<close> mark of the generator. Reading a missing array
  element and then using it raises a \<open>TypeError\<close> in the source, which is the only
  error of the model.
\<close>

datatype error = TypeError

datatype wall_dir = Top | Right | Bottom | Left

record wall_flags =
  top_wall :: bool
  right_wall :: bool
  bottom_wall :: bool
  left_wall :: bool

record cell =
  cell_x :: int
  cell_y :: int
  walls :: wall_flags
  visited :: bool

type_synonym pos = "int \<times> int"

type_synonym maze_grid = "cell list list"

text \<open>\<open>walls[dir]\<close> and \<open>walls[dir] = false\<close> for a wall name \<open>dir\<close>.\<close>

fun wall :: "wall_flags \<Rightarrow> wall_dir \<Rightarrow> bool" where
  "wall w Top = top_wall w"
| "wall w Right = right_wall w"
| "wall w Bottom = bottom_wall w"
| "wall w Left = left_wall w"

fun clear_wall :: "wall_dir \<Rightarrow> wall_flags \<Rightarrow> wall_flags" where
  "clear_wall Top w = w\<lparr>top_wall := False\<rparr>"
| "clear_wall Right w = w\<lparr>right_wall := False\<rparr>"
| "clear_wall Bottom w = w\<lparr>bottom_wall := False\<rparr>"
| "clear_wall Left w = w\<lparr>left_wall := False\<rparr>"

definition clear_cell_wall :: "wall_dir \<Rightarrow> cell \<Rightarrow> cell" where
  "clear_cell_wall d c = c\<lparr>walls := clear_wall d (walls c)\<rparr>"

definition mark_visited :: "cell \<Rightarrow> cell" where
  "mark_visited c = c\<lparr>visited := True\<rparr>"

text \<open>
  Array reads: an index outside the array gives \<open>undefined\<close> in the source, here
  \<open>None\<close>. A position \<open>(x, y)\<close> addresses the object \<open>grid[y][x]\<close>; the generator's stack
  holds such objects by reference, which the model writes as their addresses.
\<close>

definition nth_opt :: "'a list \<Rightarrow> int \<Rightarrow> 'a option" where
  "nth_opt xs i = (if 0 \<le> i \<and> i < int (length xs) then Some (xs ! nat i) else None)"

definition cell_at :: "maze_grid \<Rightarrow> pos \<Rightarrow> cell option" where
  "cell_at g p = (case nth_opt g (snd p) of None \<Rightarrow> None | Some row \<Rightarrow> nth_opt row (fst p))"

definition update_cell :: "maze_grid \<Rightarrow> pos \<Rightarrow> (cell \<Rightarrow> cell) \<Rightarrow> maze_grid" where
  "update_cell g p f =
     (case cell_at g p of
        None \<Rightarrow> g
      | Some c \<Rightarrow> g[nat (snd p) := (g ! nat (snd p))[nat (fst p) := f c]])"

text \<open>
  \<open>Math.floor(Math.random() * n)\<close>. The random source is the sequence of the values
  that successive calls of \<open>Math.random()\<close> return, each in the interval from 0
  (included) to 1 (excluded).
\<close>

definition random_index :: "real \<Rightarrow> int \<Rightarrow> int" where
  "random_index r n = \<lfloor>r * of_int n\<rfloor>"

definition unit_draws :: "(nat \<Rightarrow> real) \<Rightarrow> bool" where
  "unit_draws rnd = (\<forall>k. 0 \<le> rnd k \<and> rnd k < 1)"

section \<open>The generator\<close>

subsection \<open>Grid construction\<close>

definition new_cell :: "int \<Rightarrow> int \<Rightarrow> cell" where
  "new_cell x y =
     \<lparr>cell_x = x, cell_y = y,
      walls = \<lparr>top_wall = True, right_wall = True, bottom_wall = True, left_wall = True\<rparr>,
      visited = False\<rparr>"

definition init_grid :: "int \<Rightarrow> maze_grid" where
  "init_grid sz = map (\<lambda>y. map (\<lambda>x. new_cell x y) [0..sz - 1]) [0..sz - 1]"

subsection \<open>Carving\<close>

record direction =
  dx_of :: int
  dy_of :: int
  dir_of :: wall_dir
  opposite_of :: wall_dir

definition directions :: "direction list" where
  "directions =
     [\<lparr>dx_of = 0, dy_of = - 1, dir_of = Top, opposite_of = Bottom\<rparr>,
      \<lparr>dx_of = 1, dy_of = 0, dir_of = Right, opposite_of = Left\<rparr>,
      \<lparr>dx_of = 0, dy_of = 1, dir_of = Bottom, opposite_of = Top\<rparr>,
      \<lparr>dx_of = - 1, dy_of = 0, dir_of = Left, opposite_of = Right\<rparr>]"

text \<open>
  The state of the carving loop. The head of \<open>stack\<close> is the top of the source's
  stack. \<open>rnd_pos\<close> counts the calls of \<open>Math.random()\<close> made so far. The last three
  fields are ghost state that the source does not have and that no branch reads:
  \<open>pushes\<close> and \<open>pops\<close> count the calls of \<open>stack.push\<close> and \<open>stack.pop\<close>, and
  \<open>marks\<close> logs the cells whose \<open>visited\<close> flag has been set, in order.
\<close>

record carve_state =
  grid :: maze_grid
  stack :: "pos list"
  rnd_pos :: nat
  pushes :: nat
  pops :: nat
  marks :: "pos list"

text \<open>The \<open>for\<close> loop over \<open>directions\<close> that collects the unvisited neighbours.\<close>

fun scan_neighbors ::
  "int \<Rightarrow> maze_grid \<Rightarrow> cell \<Rightarrow> direction list \<Rightarrow> error + (pos \<times> wall_dir) list" where
  "scan_neighbors sz g current [] = Inr []"
| "scan_neighbors sz g current (d # ds) =
     (let nx = cell_x current + dx_of d; ny = cell_y current + dy_of d in
      if nx \<ge> 0 \<and> nx < sz \<and> ny \<ge> 0 \<and> ny < sz then
        (case cell_at g (nx, ny) of
           None \<Rightarrow> Inl TypeError
         | Some c \<Rightarrow>
             (case scan_neighbors sz g current ds of
                Inl e \<Rightarrow> Inl e
              | Inr found \<Rightarrow> Inr (if \<not> visited c then ((nx, ny), dir_of d) # found else found)))
      else scan_neighbors sz g current ds)"

text \<open>One iteration of the \<open>while (stack.length > 0)\<close> loop.\<close>

definition carve_step :: "int \<Rightarrow> (nat \<Rightarrow> real) \<Rightarrow> carve_state \<Rightarrow> error + carve_state" where
  "carve_step sz rnd s =
     (case stack s of
        [] \<Rightarrow> Inr s
      | cur # rest \<Rightarrow>
          (case cell_at (grid s) cur of
             None \<Rightarrow> Inl TypeError
           | Some current \<Rightarrow>
               (case scan_neighbors sz (grid s) current directions of
                  Inl e \<Rightarrow> Inl e
                | Inr neighbors \<Rightarrow>
                    if length neighbors > 0 then
                      (case nth_opt neighbors
                              (random_index (rnd (rnd_pos s)) (int (length neighbors))) of
                         None \<Rightarrow> Inl TypeError
                       | Some (nxt, direction) \<Rightarrow>
                           (case find (\<lambda>d. dir_of d = direction) directions of
                              None \<Rightarrow> Inl TypeError
                            | Some d \<Rightarrow>
                                let g1 = update_cell (grid s) cur (clear_cell_wall direction);
                                    g2 = update_cell g1 nxt (clear_cell_wall (opposite_of d));
                                    g3 = update_cell g2 nxt mark_visited
                                in Inr (s\<lparr>grid := g3,
                                          stack := nxt # stack s,
                                          rnd_pos := Suc (rnd_pos s),
                                          pushes := Suc (pushes s),
                                          marks := marks s @ [nxt]\<rparr>)))
                    else Inr (s\<lparr>stack := rest, pops := Suc (pops s)\<rparr>))))"

text \<open>The number of cells not yet visited bounds the remaining work of the loop.\<close>

definition unvisited_count :: "maze_grid \<Rightarrow> nat" where
  "unvisited_count g = sum_list (map (\<lambda>row. length (filter (\<lambda>c. \<not> visited c) row)) g)"

definition carve_measure :: "carve_state \<Rightarrow> nat" where
  "carve_measure s = 2 * unvisited_count (grid s) + length (stack s)"

subsection \<open>Array reads and writes\<close>

lemma nth_opt_Some: "nth_opt xs i = Some v \<longleftrightarrow> 0 \<le> i \<and> nat i < length xs \<and> xs ! nat i = v"
  by (auto simp: nth_opt_def nat_less_iff)

lemma cell_at_Some:
  "cell_at g p = Some c \<longleftrightarrow>
     0 \<le> snd p \<and> nat (snd p) < length g \<and> 0 \<le> fst p \<and> nat (fst p) < length (g ! nat (snd p))
       \<and> g ! nat (snd p) ! nat (fst p) = c"
  by (auto simp: cell_at_def nth_opt_Some split: option.splits) (auto simp: nth_opt_def nat_less_iff)

lemma filter_count_update:
  "i < length r \<Longrightarrow>
     length (filter P (r[i := v])) + (if P (r ! i) then 1 else 0)
       = length (filter P r) + (if P v then 1 else 0)"
proof (induction r arbitrary: i)
  case Nil
  then show ?case by simp
next
  case (Cons a r)
  then show ?case by (cases i) auto
qed

lemma row_sum_update:
  "j < length g \<Longrightarrow>
     sum_list (map h (g[j := r])) + h (g ! j) = sum_list (map h g) + (h r :: nat)"
proof (induction g arbitrary: j)
  case Nil
  then show ?case by simp
next
  case (Cons a g)
  then show ?case by (cases j) auto
qed

lemma unvisited_count_update:
  assumes "cell_at g p = Some c"
  shows "unvisited_count (update_cell g p f) + (if visited c then 0 else 1)
           = unvisited_count g + (if visited (f c) then 0 else 1)"
proof -
  let ?j = "nat (snd p)" and ?i = "nat (fst p)"
  let ?h = "\<lambda>row. length (filter (\<lambda>c. \<not> visited c) row)"
  from assms have j: "?j < length g" and i: "?i < length (g ! ?j)" and c: "g ! ?j ! ?i = c"
    by (simp_all add: cell_at_Some)
  have "?h ((g ! ?j)[?i := f c]) + (if \<not> visited c then 1 else 0)
          = ?h (g ! ?j) + (if \<not> visited (f c) then 1 else 0)"
    using filter_count_update [OF i, of "\<lambda>c. \<not> visited c" "f c"] c by simp
  moreover have "sum_list (map ?h (g[?j := (g ! ?j)[?i := f c]])) + ?h (g ! ?j)
          = sum_list (map ?h g) + ?h ((g ! ?j)[?i := f c])"
    by (rule row_sum_update [OF j])
  ultimately show ?thesis
    using assms by (simp add: unvisited_count_def update_cell_def split: if_splits)
qed

lemma scan_neighbors_sound:
  "scan_neighbors sz g current ds = Inr found \<Longrightarrow> (q, e) \<in> set found \<Longrightarrow>
     \<exists>c. cell_at g q = Some c \<and> \<not> visited c"
proof (induction ds arbitrary: found)
  case Nil
  then show ?case by simp
next
  case (Cons d ds)
  then show ?case
    by (auto simp: Let_def split: if_splits option.splits sum.splits)
qed

lemma update_cell_Some:
  "cell_at g p = Some c \<Longrightarrow>
     update_cell g p f = g[nat (snd p) := (g ! nat (snd p))[nat (fst p) := f c]]"
  by (simp add: update_cell_def)

lemma nth_opt_update:
  "nth_opt (xs[i := v]) k = (if k = int i \<and> i < length xs then Some v else nth_opt xs k)"
  by (auto simp: nth_opt_def nth_list_update)

lemma nth_opt_int: "nth_opt xs (int j) = (if j < length xs then Some (xs ! j) else None)"
  by (simp add: nth_opt_def)

lemma cell_at_update:
  "cell_at (update_cell g p f) q = (if q = p then map_option f (cell_at g p) else cell_at g q)"
proof (cases "cell_at g p")
  case None
  then show ?thesis by (simp add: update_cell_def)
next
  case (Some c)
  then have b: "0 \<le> snd p" "nat (snd p) < length g" "0 \<le> fst p"
      "nat (fst p) < length (g ! nat (snd p))"
    by (simp_all add: cell_at_Some)
  obtain i j where p: "p = (int i, int j)"
    using b by (metis nat_0_le prod.collapse)
  with b have ij: "j < length g" "i < length (g ! j)" by simp_all
  obtain qx qy where q: "q = (qx, qy)" by (cases q)
  show ?thesis using Some ij unfolding p q
    by (simp add: update_cell_Some) (auto simp: cell_at_def nth_opt_update nth_opt_int)
qed

lemma unvisited_count_clear [simp]:
  "unvisited_count (update_cell g p (clear_cell_wall d)) = unvisited_count g"
proof (cases "cell_at g p")
  case None
  then show ?thesis by (simp add: update_cell_def)
next
  case (Some c)
  from unvisited_count_update [OF Some, of "clear_cell_wall d"] show ?thesis
    by (simp add: clear_cell_wall_def)
qed

lemma unvisited_count_mark:
  "cell_at g p = Some c \<Longrightarrow> \<not> visited c \<Longrightarrow>
     Suc (unvisited_count (update_cell g p mark_visited)) = unvisited_count g"
  using unvisited_count_update [of g p c mark_visited] by (simp add: mark_visited_def)

lemma nth_opt_mem: "nth_opt xs i = Some v \<Longrightarrow> v \<in> set xs"
  by (auto simp: nth_opt_Some)

definition carved :: "maze_grid \<Rightarrow> pos \<Rightarrow> wall_dir \<Rightarrow> pos \<Rightarrow> wall_dir \<Rightarrow> maze_grid" where
  "carved g cur direction nxt opp =
     update_cell (update_cell (update_cell g cur (clear_cell_wall direction))
        nxt (clear_cell_wall opp)) nxt mark_visited"

lemma carve_step_cases:
  assumes "carve_step sz rnd s = Inr s'" and "stack s = cur # rest"
  shows "\<exists>current neighbors.
           cell_at (grid s) cur = Some current \<and>
           scan_neighbors sz (grid s) current directions = Inr neighbors \<and>
           (neighbors = [] \<and> s' = s\<lparr>stack := rest, pops := Suc (pops s)\<rparr>
            \<or> (\<exists>nxt direction d.
                  (nxt, direction) \<in> set neighbors \<and>
                  find (\<lambda>d. dir_of d = direction) directions = Some d \<and>
                  s' = s\<lparr>grid := carved (grid s) cur direction nxt (opposite_of d),
                          stack := nxt # stack s,
                          rnd_pos := Suc (rnd_pos s),
                          pushes := Suc (pushes s),
                          marks := marks s @ [nxt]\<rparr>))"
  using assms unfolding carve_step_def carved_def
  apply (auto simp: Let_def split: option.splits sum.splits if_splits dest!: nth_opt_mem)
  apply blast
  done

lemma carve_step_decreases:
  assumes "stack s \<noteq> []" and "carve_step sz rnd s = Inr s'"
  shows "carve_measure s' < carve_measure s"
proof -
  from assms(1) obtain cur rest where st: "stack s = cur # rest"
    by (cases "stack s") auto
  from carve_step_cases [OF assms(2) st] obtain current neighbors where
    cur: "cell_at (grid s) cur = Some current" and
    nb: "scan_neighbors sz (grid s) current directions = Inr neighbors" and
    alt: "neighbors = [] \<and> s' = s\<lparr>stack := rest, pops := Suc (pops s)\<rparr>
            \<or> (\<exists>nxt direction d.
                  (nxt, direction) \<in> set neighbors \<and>
                  find (\<lambda>d. dir_of d = direction) directions = Some d \<and>
                  s' = s\<lparr>grid := carved (grid s) cur direction nxt (opposite_of d),
                          stack := nxt # stack s,
                          rnd_pos := Suc (rnd_pos s),
                          pushes := Suc (pushes s),
                          marks := marks s @ [nxt]\<rparr>)"
    by blast
  from alt show ?thesis
  proof (elim disjE conjE exE)
    assume "s' = s\<lparr>stack := rest, pops := Suc (pops s)\<rparr>"
    with st show ?thesis by (simp add: carve_measure_def)
  next
    fix nxt direction d
    assume mem: "(nxt, direction) \<in> set neighbors"
      and s': "s' = s\<lparr>grid := carved (grid s) cur direction nxt (opposite_of d),
                          stack := nxt # stack s,
                          rnd_pos := Suc (rnd_pos s),
                          pushes := Suc (pushes s),
                          marks := marks s @ [nxt]\<rparr>"
    from mem nb obtain c where c: "cell_at (grid s) nxt = Some c" "\<not> visited c"
      by (blast dest: scan_neighbors_sound)
    let ?g2 = "update_cell (update_cell (grid s) cur (clear_cell_wall direction))
                 nxt (clear_cell_wall (opposite_of d))"
    from c cur obtain c2 where c2: "cell_at ?g2 nxt = Some c2" "\<not> visited c2"
      by (cases "nxt = cur") (auto simp: cell_at_update clear_cell_wall_def)
    from unvisited_count_mark [OF c2] s' show ?thesis
      by (simp add: carve_measure_def carved_def)
  qed
qed

function carve_loop :: "int \<Rightarrow> (nat \<Rightarrow> real) \<Rightarrow> carve_state \<Rightarrow> error + carve_state" where
  "carve_loop sz rnd s =
     (if stack s = [] then Inr s
      else (case carve_step sz rnd s of
              Inl e \<Rightarrow> Inl e
            | Inr s' \<Rightarrow> carve_loop sz rnd s'))"
  by pat_completeness auto
termination
  by (relation "measure (\<lambda>(sz, rnd, s). carve_measure s)")
     (auto dest: carve_step_decreases)

text \<open>
  Everything before the loop: the grid is built, \<open>grid[0][0]\<close> is marked visited and
  pushed. For a size below 1 the grid is empty and reading \<open>grid[0][0]\<close> raises.
\<close>

definition carve_start :: "int \<Rightarrow> error + carve_state" where
  "carve_start sz =
     (let g = init_grid sz in
      case cell_at g (0, 0) of
        None \<Rightarrow> Inl TypeError
      | Some startCell \<Rightarrow>
          Inr \<lparr>grid = update_cell g (0, 0) mark_visited, stack = [(0, 0)], rnd_pos = 0,
               pushes = 1, pops = 0, marks = [(0, 0)]\<rparr>)"

definition carve_phase :: "int \<Rightarrow> (nat \<Rightarrow> real) \<Rightarrow> error + carve_state" where
  "carve_phase sz rnd =
     (case carve_start sz of Inl e \<Rightarrow> Inl e | Inr s \<Rightarrow> carve_loop sz rnd s)"

subsection \<open>Extra paths of the hard mode\<close>

datatype difficulty = Easy | Hard | Insane

text \<open>The entry of \<open>dirMap\<close> for a wall name: the offset and the opposite wall.\<close>

fun dirMap :: "wall_dir \<Rightarrow> int \<times> int \<times> wall_dir" where
  "dirMap Top = (0, - 1, Bottom)"
| "dirMap Right = (1, 0, Left)"
| "dirMap Bottom = (0, 1, Top)"
| "dirMap Left = (- 1, 0, Right)"

text \<open>
  The body of \<open>if (wallDirs.length > 0)\<close> once the wall name \<open>dir\<close> is chosen: the
  wall of the cell at \<open>(x, y)\<close> and its pair on the neighbour are cleared when the
  neighbour is inside the grid.
\<close>

definition open_wall :: "int \<Rightarrow> maze_grid \<Rightarrow> int \<Rightarrow> int \<Rightarrow> wall_dir \<Rightarrow> error + maze_grid" where
  "open_wall sz g x y d =
     (case dirMap d of (dx, dy, opp) \<Rightarrow>
        let nx = x + dx; ny = y + dy in
        if nx \<ge> 0 \<and> nx < sz \<and> ny \<ge> 0 \<and> ny < sz then
          (let g1 = update_cell g (x, y) (clear_cell_wall d) in
           case cell_at g1 (nx, ny) of
             None \<Rightarrow> Inl TypeError
           | Some neighbor \<Rightarrow> Inr (update_cell g1 (nx, ny) (clear_cell_wall opp)))
        else Inr g)"

text \<open>
  One iteration of the \<open>for\<close> loop over \<open>extraPaths\<close>, on the grid and the number of
  random draws made so far. \<open>Object.keys(cell.walls)\<close> lists the wall names in the order
  in which the object literal has them.
\<close>

definition braid_step ::
  "int \<Rightarrow> (nat \<Rightarrow> real) \<Rightarrow> maze_grid \<times> nat \<Rightarrow> error + maze_grid \<times> nat" where
  "braid_step sz rnd st =
     (let g = fst st; k = snd st;
          x = random_index (rnd k) sz;
          y = random_index (rnd (k + 1)) sz
      in case cell_at g (x, y) of
           None \<Rightarrow> Inl TypeError
         | Some c \<Rightarrow>
             let wallDirs = filter (\<lambda>d. wall (walls c) d) [Top, Right, Bottom, Left] in
             if length wallDirs > 0 then
               (case nth_opt wallDirs (random_index (rnd (k + 2)) (int (length wallDirs))) of
                  None \<Rightarrow> Inl TypeError
                | Some d \<Rightarrow>
                    (case open_wall sz g x y d of
                       Inl e \<Rightarrow> Inl e
                     | Inr g' \<Rightarrow> Inr (g', k + 3)))
             else Inr (g, k + 2))"

fun braid_loop ::
  "int \<Rightarrow> (nat \<Rightarrow> real) \<Rightarrow> nat \<Rightarrow> maze_grid \<times> nat \<Rightarrow> error + maze_grid \<times> nat" where
  "braid_loop sz rnd 0 st = Inr st"
| "braid_loop sz rnd (Suc n) st =
     (case braid_step sz rnd st of
        Inl e \<Rightarrow> Inl e
      | Inr st' \<Rightarrow> braid_loop sz rnd n st')"

text \<open>\<open>Math.floor(size * size * 0.05)\<close>, the number of iterations of the loop.\<close>

definition extraPaths :: "int \<Rightarrow> int" where
  "extraPaths sz = \<lfloor>real_of_int (sz * sz) * 0.05\<rfloor>"

definition generateMaze :: "difficulty \<Rightarrow> (nat \<Rightarrow> real) \<Rightarrow> int \<Rightarrow> error + maze_grid" where
  "generateMaze difficulty rnd sz =
     (case carve_phase sz rnd of
        Inl e \<Rightarrow> Inl e
      | Inr s \<Rightarrow>
          if difficulty = Hard then
            (case braid_loop sz rnd (nat (extraPaths sz)) (grid s, rnd_pos s) of
               Inl e \<Rightarrow> Inl e
             | Inr st \<Rightarrow> Inr (fst st))
          else Inr (grid s))"

section \<open>The game\<close>

datatype game_state = Playing | Won | Lost

datatype fog_radius = Infinity | Finite int

record config =
  maze_size :: int
  timeLimit :: int
  fogRadius :: fog_radius

fun config_of :: "difficulty \<Rightarrow> config" where
  "config_of Easy = \<lparr>maze_size = 11, timeLimit = 0, fogRadius = Infinity\<rparr>"
| "config_of Hard = \<lparr>maze_size = 17, timeLimit = 60, fogRadius = Infinity\<rparr>"
| "config_of Insane = \<lparr>maze_size = 23, timeLimit = 40, fogRadius = Finite 3\<rparr>"

definition MOVE_COOLDOWN :: int where
  "MOVE_COOLDOWN = 150"

text \<open>
  The component state that \<open>movePlayer\<close> reads and writes. Sounds and the delayed
  \<open>onComplete\<close> callback leave this state as it is and are not part of it.
\<close>

record game =
  gameState :: game_state
  moveCount :: int
  playerPos :: pos
  maze :: maze_grid
  trail :: "pos list"
  lastMoveTime :: int

definition isInFog :: "config \<Rightarrow> pos \<Rightarrow> int \<Rightarrow> int \<Rightarrow> bool" where
  "isInFog cfg player x y =
     (case fogRadius cfg of
        Infinity \<Rightarrow> False
      | Finite r \<Rightarrow>
          (let dx = \<bar>x - fst player\<bar>; dy = \<bar>y - snd player\<bar> in dx > r \<or> dy > r))"

text \<open>
  A test \<open>dx === 1 && currentCell.walls.right\<close>: the wall is read, and a missing cell
  raises, only when the first operand holds.
\<close>

definition blocked :: "bool \<Rightarrow> cell option \<Rightarrow> wall_dir \<Rightarrow> error + bool" where
  "blocked cond c d =
     (if cond then (case c of None \<Rightarrow> Inl TypeError | Some c' \<Rightarrow> Inr (wall (walls c') d))
      else Inr False)"

text \<open>\<open>movePlayer(dx, dy)\<close> at the time \<open>now\<close> that \<open>Date.now()\<close> returns.\<close>

definition movePlayer :: "config \<Rightarrow> game \<Rightarrow> int \<Rightarrow> int \<Rightarrow> int \<Rightarrow> error + game" where
  "movePlayer cfg s dx dy now =
     (if gameState s \<noteq> Playing \<or> length (maze s) = 0 then Inr s
      else if now - lastMoveTime s < MOVE_COOLDOWN then Inr s
      else
        let newX = fst (playerPos s) + dx; newY = snd (playerPos s) + dy in
        if newX < 0 \<or> newX \<ge> maze_size cfg \<or> newY < 0 \<or> newY \<ge> maze_size cfg then Inr s
        else
          (case nth_opt (maze s) (snd (playerPos s)) of
             None \<Rightarrow> Inl TypeError
           | Some row \<Rightarrow>
               let currentCell = nth_opt row (fst (playerPos s)) in
               (case blocked (dx = 1) currentCell Right of Inl e \<Rightarrow> Inl e
                | Inr True \<Rightarrow> Inr s
                | Inr False \<Rightarrow>
               (case blocked (dx = - 1) currentCell Left of Inl e \<Rightarrow> Inl e
                | Inr True \<Rightarrow> Inr s
                | Inr False \<Rightarrow>
               (case blocked (dy = 1) currentCell Bottom of Inl e \<Rightarrow> Inl e
                | Inr True \<Rightarrow> Inr s
                | Inr False \<Rightarrow>
               (case blocked (dy = - 1) currentCell Top of Inl e \<Rightarrow> Inl e
                | Inr True \<Rightarrow> Inr s
                | Inr False \<Rightarrow>
                    let s1 = s\<lparr>lastMoveTime := now,
                                playerPos := (newX, newY),
                                moveCount := moveCount s + 1,
                                trail := trail s @ [(newX, newY)]\<rparr>
                    in if newX = maze_size cfg - 1 \<and> newY = maze_size cfg - 1
                       then Inr (s1\<lparr>gameState := Won\<rparr>)
                       else Inr s1))))))"

section \<open>Well-formed grids\<close>

text \<open>
  The geometry that \<open>directions\<close>, \<open>dirMap\<close> and \<open>movePlayer\<close> share: the top wall of a
  cell faces the cell one row up (\<open>y - 1\<close>), the right wall the cell one column to the
  right (\<open>x + 1\<close>), and each wall is paired with the opposite wall of the cell it faces.
\<close>

fun opposite :: "wall_dir \<Rightarrow> wall_dir" where
  "opposite Top = Bottom"
| "opposite Right = Left"
| "opposite Bottom = Top"
| "opposite Left = Right"

fun neighbour :: "pos \<Rightarrow> wall_dir \<Rightarrow> pos" where
  "neighbour p Top = (fst p, snd p - 1)"
| "neighbour p Right = (fst p + 1, snd p)"
| "neighbour p Bottom = (fst p, snd p + 1)"
| "neighbour p Left = (fst p - 1, snd p)"

text \<open>
  The cells of a grid of size \<open>sz\<close> are the positions \<open>(x, y)\<close> with both coordinates
  from 0 to \<open>sz - 1\<close>. \<open>wall_at\<close> and \<open>visited_at\<close> read the flags of the cell at a
  position; where the grid has no cell there is no way through and nothing was visited.
\<close>

definition all_dirs :: "wall_dir list" where
  "all_dirs = [Top, Right, Bottom, Left]"

definition in_bounds :: "int \<Rightarrow> pos \<Rightarrow> bool" where
  "in_bounds sz p = (0 \<le> fst p \<and> fst p < sz \<and> 0 \<le> snd p \<and> snd p < sz)"

definition cells :: "int \<Rightarrow> pos list" where
  "cells sz = List.product [0..sz - 1] [0..sz - 1]"

definition wall_at :: "maze_grid \<Rightarrow> pos \<Rightarrow> wall_dir \<Rightarrow> bool" where
  "wall_at g p d = (case cell_at g p of None \<Rightarrow> True | Some c \<Rightarrow> wall (walls c) d)"

definition visited_at :: "maze_grid \<Rightarrow> pos \<Rightarrow> bool" where
  "visited_at g p = (case cell_at g p of None \<Rightarrow> False | Some c \<Rightarrow> visited c)"

text \<open>
  A well-formed grid of size \<open>sz\<close> has \<open>sz\<close> rows of \<open>sz\<close> cells, and the cell at \<open>(x, y)\<close>
  stores the coordinates \<open>x\<close> and \<open>y\<close>.
\<close>

definition grid_ok :: "int \<Rightarrow> maze_grid \<Rightarrow> bool" where
  "grid_ok sz g =
     (length g = nat sz \<and> list_all (\<lambda>row. length row = nat sz) g \<and>
      list_all (\<lambda>p. case cell_at g p of
                       None \<Rightarrow> False
                     | Some c \<Rightarrow> cell_x c = fst p \<and> cell_y c = snd p) (cells sz))"

text \<open>
  The graph of openings: two cells of the grid are joined when they are adjacent and both
  walls of the pair between them are cleared. \<open>open_pairs\<close> lists every open wall pair
  once, under its left or upper cell and the direction \<open>Right\<close> or \<open>Bottom\<close>.
\<close>

definition passage :: "int \<Rightarrow> maze_grid \<Rightarrow> pos \<Rightarrow> pos \<Rightarrow> bool" where
  "passage sz g a b =
     (in_bounds sz a \<and> in_bounds sz b \<and>
      list_ex (\<lambda>d. neighbour a d = b \<and> \<not> wall_at g a d \<and> \<not> wall_at g b (opposite d)) all_dirs)"

definition open_pairs :: "int \<Rightarrow> maze_grid \<Rightarrow> (pos \<times> wall_dir) list" where
  "open_pairs sz g =
     filter (\<lambda>(c, d). passage sz g c (neighbour c d)) (List.product (cells sz) [Right, Bottom])"

text \<open>
  Matched walls: a cell's wall flag towards a neighbouring cell of the grid equals that
  neighbour's flag towards the cell. Walled border: a wall that faces no cell of the grid
  is present.
\<close>

definition walls_matched :: "int \<Rightarrow> maze_grid \<Rightarrow> bool" where
  "walls_matched sz g =
     list_all (\<lambda>a. list_all (\<lambda>d. in_bounds sz (neighbour a d) \<longrightarrow>
                                wall_at g a d = wall_at g (neighbour a d) (opposite d)) all_dirs)
       (cells sz)"

definition border_walled :: "int \<Rightarrow> maze_grid \<Rightarrow> bool" where
  "border_walled sz g =
     list_all (\<lambda>a. list_all (\<lambda>d. \<not> in_bounds sz (neighbour a d) \<longrightarrow> wall_at g a d) all_dirs)
       (cells sz)"

lemma set_all_dirs [simp]: "set all_dirs = UNIV"
proof -
  have "d \<in> set all_dirs" for d by (cases d) (simp_all add: all_dirs_def)
  then show ?thesis by blast
qed

lemma set_cells [simp]: "p \<in> set (cells sz) \<longleftrightarrow> in_bounds sz p"
  by (cases p) (auto simp: cells_def in_bounds_def)

lemma distinct_cells [simp]: "distinct (cells sz)"
  by (simp add: cells_def distinct_product)

lemma opposite_opposite [simp]: "opposite (opposite d) = d"
  by (cases d) simp_all

lemma neighbour_back [simp]: "neighbour (neighbour p d) (opposite d) = p"
  by (cases d) simp_all

lemma neighbour_neq [simp]: "neighbour p d \<noteq> p" "p \<noteq> neighbour p d"
  by (cases d; cases p; simp)+

lemma neighbour_inj: "neighbour p d = neighbour p e \<Longrightarrow> d = e"
  by (cases d; cases e; cases p; simp)

lemma cell_at_in_grid:
  assumes "length g = nat sz" and "list_all (\<lambda>row. length row = nat sz) g"
  shows "cell_at g p \<noteq> None \<longleftrightarrow> in_bounds sz p"
proof -
  have "length (g ! nat (snd p)) = nat sz" if "nat (snd p) < length g"
    using assms(2) that by (simp add: list_all_length)
  then show ?thesis
    using assms(1) by (cases "cell_at g p") (auto simp: cell_at_def nth_opt_def in_bounds_def split: option.splits if_splits)
qed

lemma case_option_ex:
  "(case x of None \<Rightarrow> False | Some c \<Rightarrow> P c) \<longleftrightarrow> (\<exists>c. x = Some c \<and> P c)"
  by (cases x) auto

lemma grid_ok_iff:
  "grid_ok sz g \<longleftrightarrow>
     length g = nat sz \<and> (\<forall>row \<in> set g. length row = nat sz) \<and>
     (\<forall>p. in_bounds sz p \<longrightarrow> (\<exists>c. cell_at g p = Some c \<and> cell_x c = fst p \<and> cell_y c = snd p))"
  unfolding grid_ok_def list_all_iff case_option_ex Ball_def set_cells ..

lemma grid_ok_cell:
  "grid_ok sz g \<Longrightarrow> in_bounds sz p \<Longrightarrow>
     \<exists>c. cell_at g p = Some c \<and> cell_x c = fst p \<and> cell_y c = snd p"
  unfolding grid_ok_iff by blast

lemma grid_ok_in_bounds: "grid_ok sz g \<Longrightarrow> cell_at g p = Some c \<Longrightarrow> in_bounds sz p"
  using cell_at_in_grid [of g sz p] by (auto simp: grid_ok_def)

lemma length_update_cell [simp]: "length (update_cell g p f) = length g"
  by (simp add: update_cell_def split: option.splits)

lemma row_lengths_update_cell:
  assumes "\<forall>row \<in> set g. length row = n"
  shows "\<forall>row \<in> set (update_cell g p f). length row = n"
proof (cases "cell_at g p")
  case None
  with assms show ?thesis by (simp add: update_cell_def)
next
  case (Some c)
  let ?j = "nat (snd p)"
  let ?r = "(g ! ?j)[nat (fst p) := f c]"
  from Some have "?j < length g" by (simp add: cell_at_Some)
  then have "g ! ?j \<in> set g" by simp
  with assms have "length ?r = n" by simp
  moreover have "set (g[?j := ?r]) \<subseteq> insert ?r (set g)"
    by (rule set_update_subset_insert)
  ultimately show ?thesis
    using assms Some by (auto simp: update_cell_Some)
qed

lemma grid_ok_update:
  assumes "grid_ok sz g" and "\<And>c. cell_x (f c) = cell_x c \<and> cell_y (f c) = cell_y c"
  shows "grid_ok sz (update_cell g p f)"
proof -
  have "\<exists>c. cell_at (update_cell g p f) q = Some c \<and> cell_x c = fst q \<and> cell_y c = snd q"
    if "in_bounds sz q" for q
    using grid_ok_cell [OF assms(1) that] assms(2) by (auto simp: cell_at_update)
  with assms(1) show ?thesis
    unfolding grid_ok_iff using row_lengths_update_cell [of g "nat sz" p f] by simp
qed

lemma wall_at_update:
  "wall_at (update_cell g p f) q d =
     (case cell_at g q of None \<Rightarrow> True
      | Some c \<Rightarrow> wall (walls (if q = p then f c else c)) d)"
  by (simp add: wall_at_def cell_at_update split: option.splits)

lemma visited_at_update:
  "visited_at (update_cell g p f) q =
     (case cell_at g q of None \<Rightarrow> False
      | Some c \<Rightarrow> visited (if q = p then f c else c))"
  by (simp add: visited_at_def cell_at_update split: option.splits)

lemma wall_clear_wall [simp]: "wall (clear_wall e w) d \<longleftrightarrow> d \<noteq> e \<and> wall w d"
  by (cases d; cases e; simp)

lemma carved_ok:
  "grid_ok sz g \<Longrightarrow> grid_ok sz (carved g a d b e)"
  unfolding carved_def
  by (intro grid_ok_update) (simp_all add: clear_cell_wall_def mark_visited_def)

lemma wall_at_carved:
  assumes "cell_at g a \<noteq> None" "cell_at g b \<noteq> None"
  shows "wall_at (carved g a d b e) q k \<longleftrightarrow>
           wall_at g q k \<and> \<not> (q = a \<and> k = d) \<and> \<not> (q = b \<and> k = e)"
  using assms unfolding carved_def wall_at_def
  by (auto simp: cell_at_update clear_cell_wall_def mark_visited_def split: option.splits)

lemma visited_at_carved:
  assumes "cell_at g b \<noteq> None"
  shows "visited_at (carved g a d b e) q \<longleftrightarrow> visited_at g q \<or> q = b"
  using assms unfolding carved_def visited_at_def
  by (auto simp: cell_at_update clear_cell_wall_def mark_visited_def split: option.splits)

lemma directions_entry:
  assumes "e \<in> set directions"
  shows "(fst p + dx_of e, snd p + dy_of e) = neighbour p (dir_of e)"
    and "find (\<lambda>d. dir_of d = dir_of e) directions = Some e"
    and "opposite_of e = opposite (dir_of e)"
  using assms by (auto simp: directions_def)

lemma directions_cover: "\<exists>e \<in> set directions. dir_of e = d"
  by (cases d) (simp_all add: directions_def)

lemma scan_neighbors_eq:
  assumes "grid_ok sz g"
  shows "scan_neighbors sz g current ds =
           Inr (map (\<lambda>e. ((cell_x current + dx_of e, cell_y current + dy_of e), dir_of e))
                  (filter (\<lambda>e. in_bounds sz (cell_x current + dx_of e, cell_y current + dy_of e)
                              \<and> \<not> visited_at g (cell_x current + dx_of e, cell_y current + dy_of e))
                     ds))"
proof (induction ds)
  case Nil
  show ?case by simp
next
  case (Cons d ds)
  let ?q = "(cell_x current + dx_of d, cell_y current + dy_of d)"
  show ?case
  proof (cases "in_bounds sz ?q")
    case True
    with assms obtain c where "cell_at g ?q = Some c"
      using grid_ok_cell by blast
    with True Cons show ?thesis
      by (simp add: Let_def in_bounds_def visited_at_def)
  next
    case False
    with Cons show ?thesis
      by (auto simp: Let_def in_bounds_def)
  qed
qed

text \<open>What one iteration of the carving loop does on a well-formed grid.\<close>

definition push_state :: "carve_state \<Rightarrow> pos \<Rightarrow> wall_dir \<Rightarrow> carve_state" where
  "push_state s cur d =
     s\<lparr>grid := carved (grid s) cur d (neighbour cur d) (opposite d),
       stack := neighbour cur d # stack s,
       rnd_pos := Suc (rnd_pos s),
       pushes := Suc (pushes s),
       marks := marks s @ [neighbour cur d]\<rparr>"

definition pop_state :: "carve_state \<Rightarrow> carve_state" where
  "pop_state s = s\<lparr>stack := tl (stack s), pops := Suc (pops s)\<rparr>"

lemma carve_step_abs:
  assumes ok: "grid_ok sz (grid s)" and st: "stack s = cur # rest" and cur: "in_bounds sz cur"
    and step: "carve_step sz rnd s = Inr s'"
  shows "(\<forall>d. in_bounds sz (neighbour cur d) \<longrightarrow> visited_at (grid s) (neighbour cur d))
            \<and> s' = pop_state s
         \<or> (\<exists>d. in_bounds sz (neighbour cur d) \<and> \<not> visited_at (grid s) (neighbour cur d)
                \<and> s' = push_state s cur d)"
proof -
  from carve_step_cases [OF step st] obtain current neighbors where
    c: "cell_at (grid s) cur = Some current" and
    nb: "scan_neighbors sz (grid s) current directions = Inr neighbors" and
    alt: "neighbors = [] \<and> s' = s\<lparr>stack := rest, pops := Suc (pops s)\<rparr>
            \<or> (\<exists>nxt direction d.
                  (nxt, direction) \<in> set neighbors \<and>
                  find (\<lambda>d. dir_of d = direction) directions = Some d \<and>
                  s' = s\<lparr>grid := carved (grid s) cur direction nxt (opposite_of d),
                          stack := nxt # stack s,
                          rnd_pos := Suc (rnd_pos s),
                          pushes := Suc (pushes s),
                          marks := marks s @ [nxt]\<rparr>)"
    by blast
  from grid_ok_cell [OF ok cur] c have xy: "cell_x current = fst cur" "cell_y current = snd cur"
    by simp_all
  let ?good = "\<lambda>e. in_bounds sz (neighbour cur (dir_of e))
                  \<and> \<not> visited_at (grid s) (neighbour cur (dir_of e))"
  have nbs: "neighbors = map (\<lambda>e. (neighbour cur (dir_of e), dir_of e)) (filter ?good directions)"
  proof -
    have "neighbors = map (\<lambda>e. ((fst cur + dx_of e, snd cur + dy_of e), dir_of e))
                  (filter (\<lambda>e. in_bounds sz (fst cur + dx_of e, snd cur + dy_of e)
                              \<and> \<not> visited_at (grid s) (fst cur + dx_of e, snd cur + dy_of e))
                     directions)"
      using nb scan_neighbors_eq [OF ok, of current directions] xy by simp
    also have "\<dots> = map (\<lambda>e. (neighbour cur (dir_of e), dir_of e)) (filter ?good directions)"
      by (simp add: directions_def)
    finally show ?thesis .
  qed
  from alt show ?thesis
  proof (elim disjE conjE exE)
    assume e: "neighbors = []" and s': "s' = s\<lparr>stack := rest, pops := Suc (pops s)\<rparr>"
    have "visited_at (grid s) (neighbour cur d)" if "in_bounds sz (neighbour cur d)" for d
    proof -
      obtain e where "e \<in> set directions" "dir_of e = d"
        using directions_cover by blast
      with e nbs that show ?thesis
        by (auto simp: filter_empty_conv)
    qed
    with s' st show ?thesis by (simp add: pop_state_def)
  next
    fix nxt direction d
    assume mem: "(nxt, direction) \<in> set neighbors"
      and f: "find (\<lambda>d. dir_of d = direction) directions = Some d"
      and s': "s' = s\<lparr>grid := carved (grid s) cur direction nxt (opposite_of d),
                          stack := nxt # stack s,
                          rnd_pos := Suc (rnd_pos s),
                          pushes := Suc (pushes s),
                          marks := marks s @ [nxt]\<rparr>"
    from mem nbs obtain e where e: "e \<in> set directions" "?good e"
      "nxt = neighbour cur (dir_of e)" "direction = dir_of e"
      by auto
    from directions_entry(2,3) [OF e(1)] f e(4) have "opposite_of d = opposite direction"
      by simp
    with e s' have "in_bounds sz (neighbour cur direction)"
      "\<not> visited_at (grid s) (neighbour cur direction)" "s' = push_state s cur direction"
      by (simp_all add: push_state_def)
    then show ?thesis by blast
  qed
qed

lemma random_index_range:
  assumes "0 \<le> r" "r < 1" "0 < n"
  shows "0 \<le> random_index r n" "random_index r n < n"
proof -
  from assms show "0 \<le> random_index r n"
    by (simp add: random_index_def)
  from assms have "r * of_int n < of_int n" by simp
  then show "random_index r n < n"
    by (simp add: random_index_def floor_less_iff)
qed

lemma carve_step_progress:
  assumes ok: "grid_ok sz (grid s)" and cur: "\<forall>p \<in> set (stack s). in_bounds sz p"
    and rnd: "unit_draws rnd"
  shows "\<exists>s'. carve_step sz rnd s = Inr s'"
proof (cases "stack s")
  case Nil
  then show ?thesis by (simp add: carve_step_def)
next
  case (Cons p rest)
  with cur have "in_bounds sz p" by simp
  from grid_ok_cell [OF ok this] obtain current where c: "cell_at (grid s) p = Some current"
    by blast
  obtain neighbors where nb: "scan_neighbors sz (grid s) current directions = Inr neighbors"
    using scan_neighbors_eq [OF ok] by blast
  show ?thesis
  proof (cases "neighbors = []")
    case True
    with Cons c nb show ?thesis by (simp add: carve_step_def)
  next
    case False
    let ?i = "random_index (rnd (rnd_pos s)) (int (length neighbors))"
    from False rnd have "0 \<le> ?i" "?i < int (length neighbors)"
      using random_index_range [of "rnd (rnd_pos s)" "int (length neighbors)"]
      by (simp_all add: unit_draws_def)
    then obtain nxt direction where pick: "nth_opt neighbors ?i = Some (nxt, direction)"
      by (cases "neighbors ! nat ?i") (simp add: nth_opt_def)
    obtain d where "find (\<lambda>d. dir_of d = direction) directions = Some d"
      by (cases direction) (simp_all add: directions_def)
    with Cons c nb False pick show ?thesis
      by (simp add: carve_step_def Let_def)
  qed
qed

lemma walls_matched_iff:
  "walls_matched sz g \<longleftrightarrow>
     (\<forall>a d. in_bounds sz a \<and> in_bounds sz (neighbour a d) \<longrightarrow>
        wall_at g a d = wall_at g (neighbour a d) (opposite d))"
  unfolding walls_matched_def list_all_iff Ball_def set_cells set_all_dirs by blast

lemma border_walled_iff:
  "border_walled sz g \<longleftrightarrow>
     (\<forall>a d. in_bounds sz a \<and> \<not> in_bounds sz (neighbour a d) \<longrightarrow> wall_at g a d)"
  unfolding border_walled_def list_all_iff Ball_def set_cells set_all_dirs by blast

lemma neighbour_inj_pos: "neighbour a d = neighbour b d \<Longrightarrow> a = b"
  by (cases d; cases a; cases b; simp)

text \<open>
  What every iteration of the carving loop keeps: the grid is well formed, the stack holds
  visited cells of the grid, a cell not yet visited has its four walls, walls are matched
  and the border is walled.
\<close>

definition carve_inv :: "int \<Rightarrow> carve_state \<Rightarrow> bool" where
  "carve_inv sz s =
     (grid_ok sz (grid s) \<and>
      (\<forall>p \<in> set (stack s). in_bounds sz p \<and> visited_at (grid s) p) \<and>
      (\<forall>p d. in_bounds sz p \<and> \<not> visited_at (grid s) p \<longrightarrow> wall_at (grid s) p d) \<and>
      walls_matched sz (grid s) \<and> border_walled sz (grid s))"

lemma set_tl_subset: "x \<in> set (tl xs) \<Longrightarrow> x \<in> set xs"
  by (cases xs) auto

lemma carve_inv_pop: "carve_inv sz s \<Longrightarrow> carve_inv sz (pop_state s)"
  unfolding carve_inv_def pop_state_def
  by (simp del: split_paired_All) (blast dest: set_tl_subset)

lemma carve_inv_push:
  assumes inv: "carve_inv sz s" and cur: "cur \<in> set (stack s)"
    and nb: "in_bounds sz (neighbour cur d)" "\<not> visited_at (grid s) (neighbour cur d)"
  shows "carve_inv sz (push_state s cur d)"
proof -
  let ?g = "grid s" and ?n = "neighbour cur d"
  let ?g' = "carved ?g cur d ?n (opposite d)"
  from inv have ok: "grid_ok sz ?g" by (simp add: carve_inv_def)
  from inv cur have cb: "in_bounds sz cur" and cv: "visited_at ?g cur"
    by (simp_all add: carve_inv_def)
  from grid_ok_cell [OF ok cb] grid_ok_cell [OF ok nb(1)]
  have ex: "cell_at ?g cur \<noteq> None" "cell_at ?g ?n \<noteq> None" by auto
  note w = wall_at_carved [OF ex] and v = visited_at_carved [OF ex(2)]
  have 1: "grid_ok sz ?g'" using ok by (rule carved_ok)
  have 2: "\<forall>p \<in> set (?n # stack s). in_bounds sz p \<and> visited_at ?g' p"
    using inv nb(1) by (auto simp: carve_inv_def v)
  have 3: "wall_at ?g' p k" if "in_bounds sz p" "\<not> visited_at ?g' p" for p k
  proof -
    from that have "\<not> visited_at ?g p" "p \<noteq> ?n" by (auto simp: v)
    moreover from this cv have "p \<noteq> cur" by blast
    moreover from inv have "\<forall>p d. in_bounds sz p \<and> \<not> visited_at ?g p \<longrightarrow> wall_at ?g p d"
      unfolding carve_inv_def by blast
    ultimately show ?thesis using that(1) unfolding w by blast
  qed
  have 4: "wall_at ?g' a k = wall_at ?g' (neighbour a k) (opposite k)"
    if "in_bounds sz a" "in_bounds sz (neighbour a k)" for a k
  proof -
    from inv that have "wall_at ?g a k = wall_at ?g (neighbour a k) (opposite k)"
      unfolding carve_inv_def walls_matched_iff by blast
    moreover have "(a = cur \<and> k = d) \<longleftrightarrow> (neighbour a k = ?n \<and> opposite k = opposite d)"
      by (metis neighbour_inj_pos opposite_opposite)
    moreover have "(a = ?n \<and> k = opposite d) \<longleftrightarrow> (neighbour a k = cur \<and> opposite k = d)"
      by (metis neighbour_back opposite_opposite)
    ultimately show ?thesis unfolding w by blast
  qed
  have 5: "wall_at ?g' a k" if "in_bounds sz a" "\<not> in_bounds sz (neighbour a k)" for a k
  proof -
    from inv that have "wall_at ?g a k"
      unfolding carve_inv_def border_walled_iff by blast
    moreover from that nb(1) have "\<not> (a = cur \<and> k = d)" by auto
    moreover from that cb have "\<not> (a = ?n \<and> k = opposite d)" by auto
    ultimately show ?thesis unfolding w by blast
  qed
  have f: "grid (push_state s cur d) = ?g'" "stack (push_state s cur d) = ?n # stack s"
    by (simp_all add: push_state_def)
  from 1 2 3 4 5 show ?thesis
    unfolding carve_inv_def walls_matched_iff border_walled_iff f by blast
qed

lemma length_upto0 [simp]: "length [0..sz - 1] = nat sz"
  by simp

lemma cell_at_init_grid:
  "cell_at (init_grid sz) p = (if in_bounds sz p then Some (new_cell (fst p) (snd p)) else None)"
  by (auto simp: cell_at_def nth_opt_def init_grid_def in_bounds_def)

lemma grid_ok_init: "grid_ok sz (init_grid sz)"
  unfolding grid_ok_iff
  by (auto simp: cell_at_init_grid) (auto simp: init_grid_def new_cell_def)


lemma carve_start_Some:
  "carve_start sz = Inr s \<longleftrightarrow>
     1 \<le> sz \<and> s = \<lparr>grid = update_cell (init_grid sz) (0, 0) mark_visited, stack = [(0, 0)],
                      rnd_pos = 0, pushes = 1, pops = 0, marks = [(0, 0)]\<rparr>"
  by (auto simp: carve_start_def cell_at_init_grid in_bounds_def)

lemma carve_start_error: "sz < 1 \<Longrightarrow> carve_start sz = Inl TypeError"
  by (simp add: carve_start_def cell_at_init_grid in_bounds_def)

lemma wall_at_init:
  "wall_at (update_cell (init_grid sz) p mark_visited) q d"
  by (simp add: wall_at_update cell_at_init_grid mark_visited_def new_cell_def
        split: option.splits if_splits) (cases d; simp)

lemma visited_at_init:
  "visited_at (update_cell (init_grid sz) p mark_visited) q \<longleftrightarrow> in_bounds sz q \<and> q = p"
  by (auto simp: visited_at_update cell_at_init_grid mark_visited_def new_cell_def
        split: option.splits if_splits)

lemma carve_inv_start:
  assumes "carve_start sz = Inr s"
  shows "carve_inv sz s"
proof -
  from assms have sz: "1 \<le> sz"
    and s: "grid s = update_cell (init_grid sz) (0, 0) mark_visited" "stack s = [(0, 0)]"
    by (simp_all add: carve_start_Some)
  have "grid_ok sz (grid s)"
    unfolding s by (intro grid_ok_update grid_ok_init) (simp add: mark_visited_def)
  with sz show ?thesis
    unfolding carve_inv_def walls_matched_iff border_walled_iff s
    by (simp add: wall_at_init visited_at_init in_bounds_def)
qed

section \<open>Simple paths in a graph that grows by leaves\<close>

text \<open>
  A simple path from \<open>a\<close> to \<open>b\<close> is a list of distinct vertices that starts at \<open>a\<close>, ends
  at \<open>b\<close> and steps along edges. A graph in which every two vertices are joined by exactly
  one simple path keeps this property when a new vertex is attached by one edge.
\<close>

definition simple_path :: "('a \<Rightarrow> 'a \<Rightarrow> bool) \<Rightarrow> 'a \<Rightarrow> 'a \<Rightarrow> 'a list \<Rightarrow> bool" where
  "simple_path E a b p = (p \<noteq> [] \<and> hd p = a \<and> last p = b \<and> distinct p \<and> successively E p)"

definition add_edge :: "('a \<Rightarrow> 'a \<Rightarrow> bool) \<Rightarrow> 'a \<Rightarrow> 'a \<Rightarrow> 'a \<Rightarrow> 'a \<Rightarrow> bool" where
  "add_edge E u w x y = (E x y \<or> (x = u \<and> y = w) \<or> (x = w \<and> y = u))"

lemma path_stays_inside:
  assumes "successively E p" and "\<And>x y. E x y \<Longrightarrow> y \<in> V" and "p \<noteq> []" and "hd p \<in> V"
  shows "set p \<subseteq> V"
  using assms(1,3,4)
proof (induction p)
  case Nil
  then show ?case by simp
next
  case (Cons x p)
  show ?case
  proof (cases p)
    case Nil
    with Cons.prems show ?thesis by simp
  next
    case (Cons y q)
    with Cons.prems have "E x y" "successively E p" by simp_all
    with Cons.IH assms(2) Cons Cons.prems show ?thesis by auto
  qed
qed

lemma path_without_leaf:
  assumes "successively (add_edge E u w) p" and "w \<notin> set p"
  shows "successively E p"
  using assms(1)
proof (rule successively_mono)
  fix x y assume "x \<in> set p" "y \<in> set p" "add_edge E u w x y"
  with assms(2) show "E x y" by (auto simp: add_edge_def)
qed

lemma leaf_at_end:
  assumes p: "successively (add_edge E u w) p" "distinct p" "w \<in> set p"
    and E: "\<And>x y. E x y \<Longrightarrow> x \<in> V \<and> y \<in> V" and uw: "u \<in> V" "w \<notin> V"
  shows "hd p = w \<or> last p = w"
proof (rule ccontr)
  assume n: "\<not> (hd p = w \<or> last p = w)"
  from p(3) obtain xs ys where sp: "p = xs @ w # ys" by (auto dest: split_list)
  with n have ne: "xs \<noteq> []" "ys \<noteq> []" by auto
  from p(1) sp ne have "add_edge E u w (last xs) w" "add_edge E u w w (hd ys)"
    by (auto simp: successively_append_iff successively_Cons)
  with E uw have "last xs = u" "hd ys = u"
    by (auto simp: add_edge_def)
  with ne have "u \<in> set xs" "u \<in> set ys"
    by (metis last_in_set, metis list.set_sel(1))
  with p(2) sp show False by auto
qed

lemma simple_path_single: "simple_path E a a p \<longleftrightarrow> p = [a]"
proof
  assume "simple_path E a a p"
  then have p: "p \<noteq> []" "hd p = a" "last p = a" "distinct p"
    by (simp_all add: simple_path_def)
  then obtain q where q: "p = a # q" by (cases p) auto
  with p have "q = []" by (cases "q = []") auto
  with q show "p = [a]" by simp
next
  assume "p = [a]"
  then show "simple_path E a a p" by (simp add: simple_path_def)
qed

lemma simple_path_rev:
  assumes "\<And>x y. E x y \<Longrightarrow> E y x"
  shows "simple_path E a b (rev p) \<longleftrightarrow> simple_path E b a p"
proof -
  have "successively (\<lambda>x y. E y x) p = successively E p"
    by (rule successively_cong) (auto dest: assms)
  then show ?thesis
    by (auto simp: simple_path_def hd_rev last_rev)
qed

definition unique_paths :: "'a set \<Rightarrow> ('a \<Rightarrow> 'a \<Rightarrow> bool) \<Rightarrow> bool" where
  "unique_paths V E = (\<forall>a \<in> V. \<forall>b \<in> V. \<exists>!p. simple_path E a b p)"

lemma unique_paths_add_leaf:
  assumes tree: "unique_paths V E"
    and E: "\<And>x y. E x y \<Longrightarrow> x \<in> V \<and> y \<in> V"
    and sym: "\<And>x y. E x y \<Longrightarrow> E y x"
    and uw: "u \<in> V" "w \<notin> V"
  shows "unique_paths (insert w V) (add_edge E u w)"
proof -
  let ?E' = "add_edge E u w"
  have sym': "?E' x y \<Longrightarrow> ?E' y x" for x y
    by (auto simp: add_edge_def dest: sym)
  have mono: "successively ?E' p" if "successively E p" for p
    using that by (rule successively_mono) (simp add: add_edge_def)
  have inside: "set p \<subseteq> V" if "simple_path E a b p" "a \<in> V" for a b p
    using that E by (intro path_stays_inside [of E p V]) (auto simp: simple_path_def)
  have old: "simple_path ?E' a b p \<longleftrightarrow> simple_path E a b p" if "a \<in> V" "b \<in> V" for a b p
  proof
    assume p: "simple_path ?E' a b p"
    have "w \<notin> set p"
    proof
      assume "w \<in> set p"
      with p have "hd p = w \<or> last p = w"
        using leaf_at_end [of E u w p V] E uw by (auto simp: simple_path_def)
      with p that uw show False by (auto simp: simple_path_def)
    qed
    with p show "simple_path E a b p"
      by (auto simp: simple_path_def intro: path_without_leaf)
  next
    assume "simple_path E a b p"
    then show "simple_path ?E' a b p" by (auto simp: simple_path_def intro: mono)
  qed
  have from_leaf: "\<exists>!p. simple_path ?E' w b p" if b: "b \<in> V" for b
  proof -
    from tree uw b obtain q where q: "simple_path E u b q"
      and uq: "\<And>q'. simple_path E u b q' \<Longrightarrow> q' = q"
      unfolding unique_paths_def by blast
    from inside [OF q uw(1)] uw have wq: "w \<notin> set q" by blast
    have "simple_path ?E' w b (w # q)"
      using q wq mono [of q] by (auto simp: simple_path_def successively_Cons add_edge_def)
    moreover have "p = w # q" if p: "simple_path ?E' w b p" for p
    proof -
      from p obtain r where r: "p = w # r"
        by (cases p) (auto simp: simple_path_def)
      have "r \<noteq> []"
      proof
        assume "r = []"
        with p r have "b = w" by (simp add: simple_path_def)
        with b uw show False by simp
      qed
      note r = r this
      with p have e: "?E' w (hd r)" and sr: "successively ?E' r" and
        dr: "distinct r" "w \<notin> set r" and lr: "last r = b"
        by (auto simp: simple_path_def successively_Cons)
      from e E uw have "hd r = u" by (auto simp: add_edge_def)
      with r sr dr lr have "simple_path E u b r"
        by (auto simp: simple_path_def intro: path_without_leaf)
      with uq r show ?thesis by simp
    qed
    ultimately show ?thesis by blast
  qed
  have to_leaf: "\<exists>!p. simple_path ?E' a w p" if a: "a \<in> V" for a
  proof -
    from from_leaf [OF a] obtain q where q: "simple_path ?E' w a q"
      and uq: "\<And>q'. simple_path ?E' w a q' \<Longrightarrow> q' = q" by blast
    have r: "simple_path ?E' a w (rev p) \<longleftrightarrow> simple_path ?E' w a p" for p
      by (rule simple_path_rev) (rule sym')
    from q have "simple_path ?E' a w (rev q)" by (simp add: r)
    moreover have "p = rev q" if "simple_path ?E' a w p" for p
    proof -
      from that have "simple_path ?E' w a (rev p)" using r [of "rev p"] by simp
      with uq have "rev p = q" by blast
      then show ?thesis by auto
    qed
    ultimately show ?thesis by blast
  qed
  show ?thesis
    unfolding unique_paths_def
  proof (intro ballI)
    fix a b assume ab: "a \<in> insert w V" "b \<in> insert w V"
    consider "a = w" "b = w" | "a = w" "b \<in> V" | "a \<in> V" "b = w" | "a \<in> V" "b \<in> V"
      using ab by blast
    then show "\<exists>!p. simple_path ?E' a b p"
    proof cases
      case 1
      then show ?thesis by (simp add: simple_path_single)
    next
      case 2
      then show ?thesis by (simp add: from_leaf)
    next
      case 3
      then show ?thesis by (simp add: to_leaf)
    next
      case 4
      with tree show ?thesis by (simp add: old unique_paths_def)
    qed
  qed
qed

lemma unique_paths_single: "(\<And>x y. \<not> E x y) \<Longrightarrow> unique_paths {a} E"
  by (simp add: unique_paths_def simple_path_single)

section \<open>The graph of openings during carving\<close>

lemma passage_iff:
  "passage sz g a b \<longleftrightarrow>
     in_bounds sz a \<and> in_bounds sz b \<and>
     (\<exists>d. neighbour a d = b \<and> \<not> wall_at g a d \<and> \<not> wall_at g b (opposite d))"
  by (simp add: passage_def list_ex_iff)

lemma passage_sym: "passage sz g a b \<Longrightarrow> passage sz g b a"
  unfolding passage_iff by (metis neighbour_back opposite_opposite)

definition visited_set :: "int \<Rightarrow> maze_grid \<Rightarrow> pos set" where
  "visited_set sz g = {p. in_bounds sz p \<and> visited_at g p}"

definition pair_set :: "int \<Rightarrow> maze_grid \<Rightarrow> (pos \<times> wall_dir) set" where
  "pair_set sz g = {(c, d). (d = Right \<or> d = Bottom) \<and> passage sz g c (neighbour c d)}"

lemma finite_in_bounds [simp]: "finite {p. in_bounds sz p}"
proof -
  have "{p. in_bounds sz p} = set (cells sz)" by auto
  then show ?thesis by (metis List.finite_set)
qed

lemma finite_visited_set [simp]: "finite (visited_set sz g)"
  by (rule finite_subset [OF _ finite_in_bounds [of sz]]) (auto simp: visited_set_def)

lemma finite_pair_set [simp]: "finite (pair_set sz g)"
proof (rule finite_subset)
  show "pair_set sz g \<subseteq> {p. in_bounds sz p} \<times> UNIV"
    by (auto simp: pair_set_def passage_iff)
  have "finite (UNIV :: wall_dir set)"
    by (metis List.finite_set set_all_dirs)
  then show "finite ({p. in_bounds sz p} \<times> (UNIV :: wall_dir set))" by simp
qed

lemma length_open_pairs: "length (open_pairs sz g) = card (pair_set sz g)"
proof -
  have d: "distinct (List.product (cells sz) [Right, Bottom])"
    by (simp add: distinct_product)
  have "{x. (\<lambda>(c, d). passage sz g c (neighbour c d)) x} \<inter> set (List.product (cells sz) [Right, Bottom])
          = pair_set sz g"
    by (auto simp: pair_set_def passage_iff)
  with distinct_length_filter [OF d, of "\<lambda>(c, d). passage sz g c (neighbour c d)"]
  show ?thesis by (simp add: open_pairs_def)
qed

text \<open>The effect of carving from \<open>cur\<close> to its unvisited neighbour on the graph.\<close>

lemma passage_carved:
  assumes ok: "grid_ok sz g" and cur: "in_bounds sz cur" and nb: "in_bounds sz (neighbour cur d)"
  shows "passage sz (carved g cur d (neighbour cur d) (opposite d))
           = add_edge (passage sz g) cur (neighbour cur d)"
proof (intro ext)
  fix a b
  let ?n = "neighbour cur d"
  let ?g' = "carved g cur d ?n (opposite d)"
  from grid_ok_cell [OF ok cur] grid_ok_cell [OF ok nb]
  have ex: "cell_at g cur \<noteq> None" "cell_at g ?n \<noteq> None" by auto
  note w = wall_at_carved [OF ex]
  have key: "(\<not> wall_at ?g' a k \<and> \<not> wall_at ?g' (neighbour a k) (opposite k)) \<longleftrightarrow>
             (\<not> wall_at g a k \<and> \<not> wall_at g (neighbour a k) (opposite k))
               \<or> (a = cur \<and> k = d) \<or> (a = ?n \<and> k = opposite d)" for k
  proof -
    have "(a = cur \<and> k = d) \<longleftrightarrow> (neighbour a k = ?n \<and> opposite k = opposite d)"
      by (metis neighbour_inj_pos opposite_opposite)
    moreover have "(a = ?n \<and> k = opposite d) \<longleftrightarrow> (neighbour a k = cur \<and> opposite k = d)"
      by (metis neighbour_back opposite_opposite)
    ultimately show ?thesis unfolding w by blast
  qed
  have "passage sz ?g' a b \<longleftrightarrow>
          in_bounds sz a \<and> in_bounds sz b \<and>
          (\<exists>k. neighbour a k = b \<and>
             ((\<not> wall_at g a k \<and> \<not> wall_at g (neighbour a k) (opposite k))
               \<or> (a = cur \<and> k = d) \<or> (a = ?n \<and> k = opposite d)))"
    unfolding passage_iff using key by blast
  also have "\<dots> \<longleftrightarrow> passage sz g a b \<or> (a = cur \<and> b = ?n) \<or> (a = ?n \<and> b = cur)"
    unfolding passage_iff using cur nb by (metis neighbour_back neighbour_inj)
  finally show "passage sz ?g' a b = add_edge (passage sz g) cur ?n a b"
    by (simp add: add_edge_def)
qed

lemma visited_set_carved:
  assumes "grid_ok sz g" and "in_bounds sz b"
  shows "visited_set sz (carved g a d b e) = insert b (visited_set sz g)"
proof -
  from grid_ok_cell [OF assms] have "cell_at g b \<noteq> None" by auto
  from visited_at_carved [OF this] assms(2) show ?thesis
    by (auto simp: visited_set_def)
qed

lemma pair_set_carved:
  assumes ok: "grid_ok sz g" and cur: "in_bounds sz cur" and nb: "in_bounds sz (neighbour cur d)"
    and new: "\<not> passage sz g cur (neighbour cur d)"
  shows "card (pair_set sz (carved g cur d (neighbour cur d) (opposite d)))
           = Suc (card (pair_set sz g))"
proof -
  let ?n = "neighbour cur d"
  let ?g' = "carved g cur d ?n (opposite d)"
  let ?e = "if d = Right \<or> d = Bottom then (cur, d) else (?n, opposite d)"
  have p: "passage sz ?g' a b \<longleftrightarrow> passage sz g a b \<or> (a = cur \<and> b = ?n) \<or> (a = ?n \<and> b = cur)"
    for a b
    by (simp add: passage_carved [OF ok cur nb] add_edge_def)
  have "(c, k) \<in> pair_set sz ?g' \<longleftrightarrow> (c, k) \<in> insert ?e (pair_set sz g)" for c k
  proof -
    have "(c = cur \<and> neighbour c k = ?n) \<longleftrightarrow> (c = cur \<and> k = d)"
      by (metis neighbour_inj)
    moreover have "(c = ?n \<and> neighbour c k = cur) \<longleftrightarrow> (c = ?n \<and> k = opposite d)"
      by (metis neighbour_back neighbour_inj)
    ultimately have "(c, k) \<in> pair_set sz ?g' \<longleftrightarrow>
        (c, k) \<in> pair_set sz g \<or> (k = Right \<or> k = Bottom) \<and> (c = cur \<and> k = d \<or> c = ?n \<and> k = opposite d)"
      unfolding pair_set_def p by blast
    also have "\<dots> \<longleftrightarrow> (c, k) \<in> insert ?e (pair_set sz g)"
      by (cases d; cases k; auto)
    finally show ?thesis .
  qed
  then have "x \<in> pair_set sz ?g' \<longleftrightarrow> x \<in> insert ?e (pair_set sz g)" for x
    by (cases x) (simp only:)
  then have eq: "pair_set sz ?g' = insert ?e (pair_set sz g)" by (rule set_eqI)
  have "?e \<notin> pair_set sz g"
    using new passage_sym [of sz g ?n cur] by (cases d) (auto simp: pair_set_def)
  with eq show ?thesis by simp
qed

text \<open>
  The remaining invariants of the carving loop. The visited cells with the openings form
  a tree. A visited cell that has left the stack has no unvisited neighbour. The ghost
  fields count what they are meant to count.
\<close>

definition tree_inv :: "int \<Rightarrow> carve_state \<Rightarrow> bool" where
  "tree_inv sz s =
     (unique_paths (visited_set sz (grid s)) (passage sz (grid s)) \<and>
      Suc (card (pair_set sz (grid s))) = card (visited_set sz (grid s)))"

definition dfs_inv :: "int \<Rightarrow> carve_state \<Rightarrow> bool" where
  "dfs_inv sz s =
     (visited_at (grid s) (0, 0) \<and>
      (\<forall>p d. in_bounds sz p \<and> visited_at (grid s) p \<and> p \<notin> set (stack s) \<and>
             in_bounds sz (neighbour p d) \<longrightarrow> visited_at (grid s) (neighbour p d)))"

definition count_inv :: "int \<Rightarrow> carve_state \<Rightarrow> bool" where
  "count_inv sz s =
     (distinct (marks s) \<and> set (marks s) = visited_set sz (grid s) \<and>
      pushes s = length (marks s) \<and> pops s + length (stack s) = pushes s)"

lemma passage_visited:
  assumes "carve_inv sz s" and "passage sz (grid s) a b"
  shows "a \<in> visited_set sz (grid s) \<and> b \<in> visited_set sz (grid s)"
proof -
  from assms(1) have u: "\<forall>p d. in_bounds sz p \<and> \<not> visited_at (grid s) p \<longrightarrow> wall_at (grid s) p d"
    unfolding carve_inv_def by blast
  from assms(2) u show ?thesis
    unfolding passage_iff visited_set_def by blast
qed

lemma pop_fields [simp]:
  "grid (pop_state s) = grid s" "stack (pop_state s) = tl (stack s)"
  "marks (pop_state s) = marks s" "pushes (pop_state s) = pushes s"
  "pops (pop_state s) = Suc (pops s)"
  by (simp_all add: pop_state_def)

lemma push_fields [simp]:
  "grid (push_state s cur d) = carved (grid s) cur d (neighbour cur d) (opposite d)"
  "stack (push_state s cur d) = neighbour cur d # stack s"
  "marks (push_state s cur d) = marks s @ [neighbour cur d]"
  "pushes (push_state s cur d) = Suc (pushes s)"
  "pops (push_state s cur d) = pops s"
  by (simp_all add: push_state_def)

lemma tree_inv_push:
  assumes inv: "carve_inv sz s" and tree: "tree_inv sz s" and cur: "cur \<in> set (stack s)"
    and nb: "in_bounds sz (neighbour cur d)" "\<not> visited_at (grid s) (neighbour cur d)"
  shows "tree_inv sz (push_state s cur d)"
proof -
  let ?g = "grid s" and ?n = "neighbour cur d"
  from inv have ok: "grid_ok sz ?g" by (simp add: carve_inv_def)
  from inv cur have cb: "in_bounds sz cur" and cv: "visited_at ?g cur"
    by (simp_all add: carve_inv_def)
  from nb have nV: "?n \<notin> visited_set sz ?g" by (simp add: visited_set_def)
  from cb cv have cV: "cur \<in> visited_set sz ?g" by (simp add: visited_set_def)
  have new: "\<not> passage sz ?g cur ?n"
    using passage_visited [OF inv, of cur ?n] nV by blast
  have "unique_paths (insert ?n (visited_set sz ?g)) (add_edge (passage sz ?g) cur ?n)"
    using tree passage_visited [OF inv] passage_sym cV nV
    by (intro unique_paths_add_leaf) (auto simp: tree_inv_def)
  moreover have "card (insert ?n (visited_set sz ?g)) = Suc (card (visited_set sz ?g))"
    using nV by simp
  ultimately show ?thesis
    using tree pair_set_carved [OF ok cb nb(1) new]
    by (simp add: tree_inv_def passage_carved [OF ok cb nb(1)] visited_set_carved [OF ok nb(1)])
qed

lemma dfs_inv_push:
  assumes inv: "carve_inv sz s" and dfs: "dfs_inv sz s"
    and nb: "in_bounds sz (neighbour cur d)"
  shows "dfs_inv sz (push_state s cur d)"
proof -
  from inv have ok: "grid_ok sz (grid s)" by (simp add: carve_inv_def)
  from grid_ok_cell [OF ok nb] have "cell_at (grid s) (neighbour cur d) \<noteq> None" by auto
  note v = visited_at_carved [OF this]
  from dfs show ?thesis
    unfolding dfs_inv_def push_fields v by (simp del: split_paired_All) blast
qed

lemma dfs_inv_pop:
  assumes dfs: "dfs_inv sz s" and st: "stack s = cur # rest"
    and full: "\<forall>d. in_bounds sz (neighbour cur d) \<longrightarrow> visited_at (grid s) (neighbour cur d)"
  shows "dfs_inv sz (pop_state s)"
  using assms unfolding dfs_inv_def pop_fields
  by (simp del: split_paired_All) blast

lemma count_inv_push:
  assumes inv: "carve_inv sz s" and cnt: "count_inv sz s"
    and nb: "in_bounds sz (neighbour cur d)" "\<not> visited_at (grid s) (neighbour cur d)"
  shows "count_inv sz (push_state s cur d)"
proof -
  from inv have ok: "grid_ok sz (grid s)" by (simp add: carve_inv_def)
  from nb have "neighbour cur d \<notin> visited_set sz (grid s)" by (simp add: visited_set_def)
  with cnt show ?thesis
    by (simp add: count_inv_def visited_set_carved [OF ok nb(1)])
qed

lemma count_inv_pop:
  assumes "count_inv sz s" and "stack s = cur # rest"
  shows "count_inv sz (pop_state s)"
  using assms by (simp add: count_inv_def)

definition full_inv :: "int \<Rightarrow> carve_state \<Rightarrow> bool" where
  "full_inv sz s = (carve_inv sz s \<and> tree_inv sz s \<and> dfs_inv sz s \<and> count_inv sz s)"

lemma full_inv_step:
  assumes inv: "full_inv sz s" and ne: "stack s \<noteq> []" and step: "carve_step sz rnd s = Inr s'"
  shows "full_inv sz s'"
proof -
  from ne obtain cur rest where st: "stack s = cur # rest"
    by (cases "stack s") auto
  from inv have ci: "carve_inv sz s" by (simp add: full_inv_def)
  with st have ok: "grid_ok sz (grid s)" and cb: "in_bounds sz cur"
    by (simp_all add: carve_inv_def)
  from st have mem: "cur \<in> set (stack s)" by simp
  from carve_step_abs [OF ok st cb step] show ?thesis
  proof (elim disjE conjE exE)
    assume "\<forall>d. in_bounds sz (neighbour cur d) \<longrightarrow> visited_at (grid s) (neighbour cur d)"
      and "s' = pop_state s"
    with inv st show ?thesis
      by (simp add: full_inv_def carve_inv_pop dfs_inv_pop count_inv_pop tree_inv_def)
  next
    fix d
    assume "in_bounds sz (neighbour cur d)" "\<not> visited_at (grid s) (neighbour cur d)"
      "s' = push_state s cur d"
    with inv mem show ?thesis
      by (simp add: full_inv_def carve_inv_push tree_inv_push dfs_inv_push count_inv_push)
  qed
qed

lemma full_inv_start:
  assumes "carve_start sz = Inr s"
  shows "full_inv sz s"
proof -
  from assms have sz: "1 \<le> sz"
    and s: "grid s = update_cell (init_grid sz) (0, 0) mark_visited" "stack s = [(0, 0)]"
      "marks s = [(0, 0)]" "pushes s = 1" "pops s = 0"
    by (simp_all add: carve_start_Some)
  from sz have V: "visited_set sz (grid s) = {(0, 0)}"
    by (auto simp: visited_set_def s visited_at_init in_bounds_def)
  have P: "\<not> passage sz (grid s) a b" for a b
    by (simp add: passage_iff s wall_at_init)
  then have "pair_set sz (grid s) = {}" by (simp add: pair_set_def)
  with V P sz show ?thesis
    unfolding full_inv_def tree_inv_def dfs_inv_def count_inv_def
    using carve_inv_start [OF assms]
    by (simp add: unique_paths_single s visited_at_init in_bounds_def)
qed

text \<open>The states at the head of the carving loop.\<close>

inductive carving :: "int \<Rightarrow> (nat \<Rightarrow> real) \<Rightarrow> carve_state \<Rightarrow> bool" for sz rnd where
  start: "carve_start sz = Inr s \<Longrightarrow> carving sz rnd s"
| step: "carving sz rnd s \<Longrightarrow> stack s \<noteq> [] \<Longrightarrow> carve_step sz rnd s = Inr s' \<Longrightarrow> carving sz rnd s'"

lemma carving_inv: "carving sz rnd s \<Longrightarrow> full_inv sz s"
  by (induction rule: carving.induct) (auto intro: full_inv_start full_inv_step)

lemma carve_loop_carving:
  "carve_loop sz rnd s = Inr s' \<Longrightarrow> carving sz rnd s \<Longrightarrow> carving sz rnd s' \<and> stack s' = []"
proof (induction sz rnd s rule: carve_loop.induct)
  case (1 sz rnd s)
  show ?case
  proof (cases "stack s = []")
    case True
    with "1.prems" show ?thesis by simp
  next
    case False
    with "1.prems" obtain t where t: "carve_step sz rnd s = Inr t" "carve_loop sz rnd t = Inr s'"
      by (cases "carve_step sz rnd s") simp_all
    from "1.prems"(2) False t(1) have "carving sz rnd t" by (rule carving.step)
    with "1.IH" [OF False t(1) t(2)] show ?thesis by simp
  qed
qed

lemma carve_loop_returns:
  "carving sz rnd s \<Longrightarrow> unit_draws rnd \<Longrightarrow> \<exists>s'. carve_loop sz rnd s = Inr s'"
proof (induction sz rnd s rule: carve_loop.induct)
  case (1 sz rnd s)
  show ?case
  proof (cases "stack s = []")
    case True
    then show ?thesis by simp
  next
    case False
    from "1.prems"(1) have "carve_inv sz s" by (auto dest: carving_inv simp: full_inv_def)
    then have "grid_ok sz (grid s)" "\<forall>p \<in> set (stack s). in_bounds sz p"
      by (simp_all add: carve_inv_def)
    from carve_step_progress [OF this "1.prems"(2)] obtain t where t: "carve_step sz rnd s = Inr t"
      by blast
    from "1.prems"(1) False t have "carving sz rnd t" by (rule carving.step)
    from "1.IH" [OF False t this "1.prems"(2)] False t show ?thesis by simp
  qed
qed

section \<open>The carved maze\<close>

text \<open>
  A walk may repeat vertices; a cycle is a closed simple path through at least three
  vertices. A maze is connected when a walk of openings joins every two of its cells.
\<close>

definition walk :: "('a \<Rightarrow> 'a \<Rightarrow> bool) \<Rightarrow> 'a \<Rightarrow> 'a \<Rightarrow> 'a list \<Rightarrow> bool" where
  "walk E a b p = (p \<noteq> [] \<and> hd p = a \<and> last p = b \<and> successively E p)"

definition cycle :: "('a \<Rightarrow> 'a \<Rightarrow> bool) \<Rightarrow> 'a list \<Rightarrow> bool" where
  "cycle E p = (3 \<le> length p \<and> distinct p \<and> successively E p \<and> E (last p) (hd p))"

definition maze_connected :: "int \<Rightarrow> maze_grid \<Rightarrow> bool" where
  "maze_connected sz g =
     (\<forall>a \<in> set (cells sz). \<forall>b \<in> set (cells sz). \<exists>p. walk (passage sz g) a b p)"

lemma unique_paths_no_cycle:
  assumes u: "unique_paths V E" and E: "\<And>x y. E x y \<Longrightarrow> x \<in> V \<and> y \<in> V"
    and sym: "\<And>x y. E x y \<Longrightarrow> E y x"
  shows "\<not> cycle E p"
proof
  assume c: "cycle E p"
  then have len: "3 \<le> length p" and d: "distinct p" and s: "successively E p"
    and e: "E (last p) (hd p)"
    by (simp_all add: cycle_def)
  from len have ne: "p \<noteq> []" by auto
  from e E have V: "hd p \<in> V" "last p \<in> V" by blast+
  have neq: "hd p \<noteq> last p"
  proof
    assume "hd p = last p"
    with ne d have "simple_path E (hd p) (hd p) p" using s by (simp add: simple_path_def)
    then have "p = [hd p]" by (simp add: simple_path_single)
    then have "length p = 1" by (metis length_Cons list.size(3) One_nat_def)
    with len show False by simp
  qed
  have 1: "simple_path E (hd p) (last p) p"
    using ne d s by (simp add: simple_path_def)
  have 2: "simple_path E (hd p) (last p) [hd p, last p]"
    using neq e sym by (simp add: simple_path_def)
  from u V 1 2 have "p = [hd p, last p]"
    unfolding unique_paths_def by blast
  then have "length p = 2" by (metis length_Cons list.size(3) numeral_2_eq_2)
  with len show False by simp
qed

lemma card_in_bounds: "0 \<le> sz \<Longrightarrow> card {p. in_bounds sz p} = nat (sz * sz)"
proof -
  assume "0 \<le> sz"
  have "{p. in_bounds sz p} = set (cells sz)" by auto
  then have "card {p. in_bounds sz p} = length (cells sz)"
    by (simp add: distinct_card)
  also have "\<dots> = nat sz * nat sz" by (simp add: cells_def)
  also have "\<dots> = nat (sz * sz)" using \<open>0 \<le> sz\<close> by (simp add: nat_mult_distrib)
  finally show ?thesis .
qed

lemma all_visited:
  assumes dfs: "dfs_inv sz s" and st: "stack s = []"
  shows "visited_set sz (grid s) = {p. in_bounds sz p}"
proof -
  let ?v = "visited_at (grid s)"
  from dfs st have z: "?v (0, 0)"
    and cl: "\<And>p d. in_bounds sz p \<Longrightarrow> ?v p \<Longrightarrow> in_bounds sz (neighbour p d) \<Longrightarrow> ?v (neighbour p d)"
    unfolding dfs_inv_def by (simp, simp del: split_paired_All)
  have row: "int i < sz \<Longrightarrow> ?v (int i, 0)" for i
  proof (induction i)
    case 0
    show ?case using z by simp
  next
    case (Suc i)
    then have "?v (neighbour (int i, 0) Right)"
      by (intro cl) (simp_all add: in_bounds_def)
    then show ?case by (simp add: add.commute)
  qed
  have col: "int j < sz \<Longrightarrow> 0 \<le> x \<Longrightarrow> x < sz \<Longrightarrow> ?v (x, int j)" for j x
  proof (induction j)
    case 0
    with row [of "nat x"] show ?case by simp
  next
    case (Suc j)
    then have "?v (neighbour (x, int j) Bottom)"
      by (intro cl) (simp_all add: in_bounds_def)
    then show ?case by (simp add: add.commute)
  qed
  have "?v p" if "in_bounds sz p" for p
    using that col [of "nat (snd p)" "fst p"] by (simp add: in_bounds_def)
  then show ?thesis by (auto simp: visited_set_def)
qed

lemma carve_phase_result:
  assumes "1 \<le> sz" and "unit_draws rnd"
  shows "\<exists>s. carve_phase sz rnd = Inr s \<and> carving sz rnd s \<and> stack s = []"
proof -
  from assms(1) obtain s0 where s0: "carve_start sz = Inr s0"
    by (simp add: carve_start_Some)
  then have c: "carving sz rnd s0" by (rule carving.start)
  from carve_loop_returns [OF c assms(2)] obtain s where s: "carve_loop sz rnd s0 = Inr s"
    by blast
  from carve_loop_carving [OF s c] s s0 show ?thesis
    by (simp add: carve_phase_def)
qed

lemma carve_phase_carving:
  assumes "carve_phase sz rnd = Inr s"
  shows "carving sz rnd s \<and> stack s = [] \<and> 1 \<le> sz"
proof -
  from assms obtain s0 where s0: "carve_start sz = Inr s0" and l: "carve_loop sz rnd s0 = Inr s"
    by (cases "carve_start sz") (simp_all add: carve_phase_def)
  from s0 have "carving sz rnd s0" by (rule carving.start)
  from carve_loop_carving [OF l this] s0 show ?thesis
    by (simp add: carve_start_Some)
qed

lemma finished_tree:
  assumes inv: "full_inv sz s" and st: "stack s = []" and sz: "1 \<le> sz"
  shows "length (open_pairs sz (grid s)) = nat (sz * sz - 1)"
    and "unique_paths {p. in_bounds sz p} (passage sz (grid s))"
proof -
  from inv st have V: "visited_set sz (grid s) = {p. in_bounds sz p}"
    by (simp add: full_inv_def all_visited)
  from inv have "Suc (card (pair_set sz (grid s))) = card (visited_set sz (grid s))"
    by (simp add: full_inv_def tree_inv_def)
  with V sz have "Suc (card (pair_set sz (grid s))) = nat (sz * sz)"
    by (simp add: card_in_bounds)
  then have "card (pair_set sz (grid s)) = nat (sz * sz) - 1" by simp
  also have "\<dots> = nat (sz * sz - 1)" by simp
  finally show "length (open_pairs sz (grid s)) = nat (sz * sz - 1)"
    by (simp add: length_open_pairs)
  from inv V show "unique_paths {p. in_bounds sz p} (passage sz (grid s))"
    by (simp add: full_inv_def tree_inv_def)
qed

lemma simple_path_walk: "simple_path E a b p \<Longrightarrow> walk E a b p"
  by (simp add: simple_path_def walk_def)

lemma unique_paths_connected:
  assumes "unique_paths {p. in_bounds sz p} (passage sz g)"
  shows "maze_connected sz g"
  unfolding maze_connected_def
proof (intro ballI)
  fix a b assume "a \<in> set (cells sz)" "b \<in> set (cells sz)"
  then have "a \<in> {p. in_bounds sz p}" "b \<in> {p. in_bounds sz p}" by simp_all
  with assms obtain p where "simple_path (passage sz g) a b p"
    unfolding unique_paths_def by blast
  then show "\<exists>p. walk (passage sz g) a b p" by (blast intro: simple_path_walk)
qed

lemma count_list_distinct: "distinct xs \<Longrightarrow> x \<in> set xs \<Longrightarrow> count_list xs x = 1"
  by (induction xs) auto

text \<open>
  Claim C1. For every size of at least 2 and every random sequence, the carving phase
  returns a grid with exactly \<open>N\<^sup>2 - 1\<close> open wall pairs whose graph of openings is
  connected and without cycle, and in which every two cells are joined by exactly one
  simple path of openings.
\<close>

theorem carve_phase_perfect_maze:
  assumes "2 \<le> sz" and "unit_draws rnd"
  shows "\<exists>s. carve_phase sz rnd = Inr s
           \<and> length (open_pairs sz (grid s)) = nat (sz * sz - 1)
           \<and> maze_connected sz (grid s)
           \<and> (\<forall>p. \<not> cycle (passage sz (grid s)) p)
           \<and> (\<forall>a \<in> set (cells sz). \<forall>b \<in> set (cells sz).
                 \<exists>!p. simple_path (passage sz (grid s)) a b p)"
proof -
  from assms have sz: "1 \<le> sz" by simp
  from carve_phase_result [OF sz assms(2)] obtain s where
    s: "carve_phase sz rnd = Inr s" "carving sz rnd s" "stack s = []"
    by blast
  from s(2) have inv: "full_inv sz s" by (rule carving_inv)
  note t = finished_tree [OF inv s(3) sz]
  have "\<not> cycle (passage sz (grid s)) p" for p
    using t(2)
  proof (rule unique_paths_no_cycle)
    show "passage sz (grid s) x y \<Longrightarrow> x \<in> {p. in_bounds sz p} \<and> y \<in> {p. in_bounds sz p}" for x y
      by (simp add: passage_iff)
    show "passage sz (grid s) x y \<Longrightarrow> passage sz (grid s) y x" for x y
      by (rule passage_sym)
  qed
  moreover have "\<forall>a \<in> set (cells sz). \<forall>b \<in> set (cells sz).
                   \<exists>!p. simple_path (passage sz (grid s)) a b p"
  proof (intro ballI)
    fix a b assume "a \<in> set (cells sz)" "b \<in> set (cells sz)"
    then have "a \<in> {p. in_bounds sz p}" "b \<in> {p. in_bounds sz p}" by simp_all
    with t(2) show "\<exists>!p. simple_path (passage sz (grid s)) a b p"
      unfolding unique_paths_def by blast
  qed
  ultimately show ?thesis
    using s(1) t(1) unique_paths_connected [OF t(2)] by blast
qed

theorem carve_phase_perfect_maze_witness:
  "(2 :: int) \<le> 2 \<and> unit_draws (\<lambda>k. 0) \<and>
   (\<exists>s. carve_phase 2 (\<lambda>k. 0) = Inr s
      \<and> length (open_pairs 2 (grid s)) = nat (2 * 2 - 1)
      \<and> maze_connected 2 (grid s)
      \<and> (\<forall>p. \<not> cycle (passage 2 (grid s)) p)
      \<and> (\<forall>a \<in> set (cells 2). \<forall>b \<in> set (cells 2).
            \<exists>!p. simple_path (passage 2 (grid s)) a b p))"
  using carve_phase_perfect_maze [of 2 "\<lambda>k. 0"] by (simp only: unit_draws_def) simp

text \<open>
  Claim C9. For every size of at least 2 and every random sequence, the carving loop
  terminates without error with an empty stack, after exactly \<open>N\<^sup>2\<close> pushes and
  \<open>N\<^sup>2\<close> pops, and every cell of the grid has been marked visited exactly once.
\<close>

theorem carving_terminates_counts:
  assumes "2 \<le> sz" and "unit_draws rnd"
  shows "\<exists>s. carve_phase sz rnd = Inr s \<and> stack s = []
           \<and> pushes s = nat (sz * sz) \<and> pops s = nat (sz * sz)
           \<and> set (marks s) = set (cells sz)
           \<and> (\<forall>c \<in> set (cells sz). count_list (marks s) c = 1)"
proof -
  from assms have sz: "1 \<le> sz" by simp
  from carve_phase_result [OF sz assms(2)] obtain s where
    s: "carve_phase sz rnd = Inr s" "carving sz rnd s" "stack s = []"
    by blast
  from s(2) have inv: "full_inv sz s" by (rule carving_inv)
  then have V: "visited_set sz (grid s) = {p. in_bounds sz p}"
    using s(3) by (simp add: full_inv_def all_visited)
  from inv have c: "distinct (marks s)" "set (marks s) = visited_set sz (grid s)"
    "pushes s = length (marks s)" "pops s + length (stack s) = pushes s"
    by (simp_all add: full_inv_def count_inv_def)
  from c(1,2) have "length (marks s) = card (visited_set sz (grid s))"
    by (metis distinct_card)
  with V sz have len: "length (marks s) = nat (sz * sz)" by (simp add: card_in_bounds)
  have m: "set (marks s) = set (cells sz)" using c(2) V by auto
  have "count_list (marks s) x = 1" if "x \<in> set (cells sz)" for x
    using that m c(1) by (simp add: count_list_distinct)
  moreover from c(3) len have "pushes s = nat (sz * sz)" by simp
  moreover from c(4) s(3) this have "pops s = nat (sz * sz)" by simp
  ultimately show ?thesis using s(1,3) m by blast
qed

theorem carving_terminates_counts_witness:
  "(2 :: int) \<le> 2 \<and> unit_draws (\<lambda>k. 0) \<and>
   (\<exists>s. carve_phase 2 (\<lambda>k. 0) = Inr s \<and> stack s = []
      \<and> pushes s = nat (2 * 2) \<and> pops s = nat (2 * 2)
      \<and> set (marks s) = set (cells 2)
      \<and> (\<forall>c \<in> set (cells 2). count_list (marks s) c = 1))"
  using carving_terminates_counts [of 2 "\<lambda>k. 0"] by (simp only: unit_draws_def) simp

section \<open>The extra paths\<close>

definition braided :: "maze_grid \<Rightarrow> pos \<Rightarrow> wall_dir \<Rightarrow> maze_grid" where
  "braided g p d =
     update_cell (update_cell g p (clear_cell_wall d)) (neighbour p d)
       (clear_cell_wall (opposite d))"

lemma braided_ok: "grid_ok sz g \<Longrightarrow> grid_ok sz (braided g p d)"
  unfolding braided_def
  by (intro grid_ok_update) (simp_all add: clear_cell_wall_def)

lemma wall_at_braided:
  assumes "cell_at g p \<noteq> None" "cell_at g (neighbour p d) \<noteq> None"
  shows "wall_at (braided g p d) q k \<longleftrightarrow>
           wall_at g q k \<and> \<not> (q = p \<and> k = d) \<and> \<not> (q = neighbour p d \<and> k = opposite d)"
  using assms unfolding braided_def wall_at_def
  by (auto simp: cell_at_update clear_cell_wall_def split: option.splits)

lemma open_wall_eq:
  "open_wall sz g x y d =
     (if in_bounds sz (neighbour (x, y) d) then
        (case cell_at (update_cell g (x, y) (clear_cell_wall d)) (neighbour (x, y) d) of
           None \<Rightarrow> Inl TypeError
         | Some neighbor \<Rightarrow> Inr (braided g (x, y) d))
      else Inr g)"
  by (cases d) (simp_all add: open_wall_def Let_def in_bounds_def braided_def split: option.split)

lemma open_wall_abs:
  "open_wall sz g x y d = Inr g' \<Longrightarrow>
     g' = g \<or> in_bounds sz (neighbour (x, y) d) \<and> g' = braided g (x, y) d"
  by (auto simp: open_wall_eq split: if_splits option.splits)

lemma open_wall_progress:
  assumes "grid_ok sz g"
  shows "\<exists>g'. open_wall sz g x y d = Inr g'"
proof (cases "in_bounds sz (neighbour (x, y) d)")
  case True
  have "grid_ok sz (update_cell g (x, y) (clear_cell_wall d))"
    using assms by (intro grid_ok_update) (simp_all add: clear_cell_wall_def)
  from grid_ok_cell [OF this True] True show ?thesis
    by (auto simp: open_wall_eq)
next
  case False
  then show ?thesis by (simp add: open_wall_eq)
qed

lemma braid_step_abs:
  assumes ok: "grid_ok sz g" and step: "braid_step sz rnd (g, k) = Inr (g', k')"
  shows "g' = g \<or> (\<exists>p d. in_bounds sz p \<and> in_bounds sz (neighbour p d) \<and> g' = braided g p d)"
proof -
  let ?p = "(random_index (rnd k) sz, random_index (rnd (k + 1)) sz)"
  from step obtain c where c: "cell_at g ?p = Some c"
    by (auto simp: braid_step_def Let_def split: option.splits)
  from grid_ok_in_bounds [OF ok c] have pb: "in_bounds sz ?p" .
  from step c have "g' = g \<or> (\<exists>d. in_bounds sz (neighbour ?p d) \<and> g' = braided g ?p d)"
    unfolding braid_step_def Let_def
    by (auto split: option.splits if_splits sum.splits dest!: open_wall_abs)
  with pb show ?thesis by blast
qed

lemma braid_step_progress:
  assumes ok: "grid_ok sz g" and rnd: "unit_draws rnd" and sz: "1 \<le> sz"
  shows "\<exists>st'. braid_step sz rnd (g, k) = Inr st'"
proof -
  let ?p = "(random_index (rnd k) sz, random_index (rnd (k + 1)) sz)"
  from rnd sz have "in_bounds sz ?p"
    using random_index_range [of "rnd k" sz] random_index_range [of "rnd (k + 1)" sz]
    by (simp add: unit_draws_def in_bounds_def)
  from grid_ok_cell [OF ok this] obtain c where c: "cell_at g ?p = Some c" by auto
  define ws where "ws = filter (\<lambda>d. wall (walls c) d) [Top, Right, Bottom, Left]"
  have eq: "braid_step sz rnd (g, k) =
          (if length ws > 0 then
             (case nth_opt ws (random_index (rnd (k + 2)) (int (length ws))) of
                None \<Rightarrow> Inl TypeError
              | Some d \<Rightarrow>
                  (case open_wall sz g (fst ?p) (snd ?p) d of
                     Inl e \<Rightarrow> Inl e
                   | Inr g' \<Rightarrow> Inr (g', k + 3)))
           else Inr (g, k + 2))"
    by (simp only: braid_step_def Let_def fst_conv snd_conv c option.case ws_def [symmetric]
          cong: option.case_cong)
  show ?thesis
  proof (cases "length ws > 0")
    case False
    with eq show ?thesis by simp
  next
    case True
    let ?i = "random_index (rnd (k + 2)) (int (length ws))"
    from True rnd have "0 \<le> ?i" "?i < int (length ws)"
      using random_index_range [of "rnd (k + 2)" "int (length ws)"]
      by (simp_all add: unit_draws_def)
    then obtain d where d: "nth_opt ws ?i = Some d"
      by (simp add: nth_opt_def)
    from open_wall_progress [OF ok] obtain g' where "open_wall sz g (fst ?p) (snd ?p) d = Inr g'"
      by blast
    with eq True d show ?thesis by simp
  qed
qed

text \<open>What the extra paths keep: a well-formed grid with matched walls and a walled border.\<close>

definition braid_inv :: "int \<Rightarrow> maze_grid \<Rightarrow> bool" where
  "braid_inv sz g = (grid_ok sz g \<and> walls_matched sz g \<and> border_walled sz g)"

lemma braid_inv_braided:
  assumes inv: "braid_inv sz g" and p: "in_bounds sz p" and nb: "in_bounds sz (neighbour p d)"
  shows "braid_inv sz (braided g p d)"
proof -
  let ?n = "neighbour p d" and ?g' = "braided g p d"
  from inv have ok: "grid_ok sz g" by (simp add: braid_inv_def)
  from grid_ok_cell [OF ok p] grid_ok_cell [OF ok nb]
  have ex: "cell_at g p \<noteq> None" "cell_at g ?n \<noteq> None" by auto
  note w = wall_at_braided [OF ex]
  have 1: "wall_at ?g' a k = wall_at ?g' (neighbour a k) (opposite k)"
    if "in_bounds sz a" "in_bounds sz (neighbour a k)" for a k
  proof -
    from inv that have "wall_at g a k = wall_at g (neighbour a k) (opposite k)"
      unfolding braid_inv_def walls_matched_iff by blast
    moreover have "(a = p \<and> k = d) \<longleftrightarrow> (neighbour a k = ?n \<and> opposite k = opposite d)"
      by (metis neighbour_inj_pos opposite_opposite)
    moreover have "(a = ?n \<and> k = opposite d) \<longleftrightarrow> (neighbour a k = p \<and> opposite k = d)"
      by (metis neighbour_back opposite_opposite)
    ultimately show ?thesis unfolding w by blast
  qed
  have 2: "wall_at ?g' a k" if "in_bounds sz a" "\<not> in_bounds sz (neighbour a k)" for a k
  proof -
    from inv that have "wall_at g a k"
      unfolding braid_inv_def border_walled_iff by blast
    moreover from that nb have "\<not> (a = p \<and> k = d)" by auto
    moreover from that p have "\<not> (a = ?n \<and> k = opposite d)" by auto
    ultimately show ?thesis unfolding w by blast
  qed
  from braided_ok [OF ok] 1 2 show ?thesis
    unfolding braid_inv_def walls_matched_iff border_walled_iff by blast
qed

lemma braid_inv_step:
  assumes "braid_inv sz g" and "braid_step sz rnd (g, k) = Inr (g', k')"
  shows "braid_inv sz g'"
proof -
  from assms(1) have "grid_ok sz g" by (simp add: braid_inv_def)
  from braid_step_abs [OF this assms(2)] assms(1) show ?thesis
    by (auto intro: braid_inv_braided)
qed

lemma braid_loop_inv:
  "braid_inv sz (fst st) \<Longrightarrow> braid_loop sz rnd n st = Inr st' \<Longrightarrow> braid_inv sz (fst st')"
proof (induction n arbitrary: st)
  case 0
  then show ?case by simp
next
  case (Suc n)
  from Suc.prems(2) obtain t where t: "braid_step sz rnd st = Inr t" "braid_loop sz rnd n t = Inr st'"
    by (cases "braid_step sz rnd st") simp_all
  from braid_inv_step [of sz "fst st" rnd "snd st" "fst t" "snd t"] Suc.prems(1) t(1)
  have "braid_inv sz (fst t)" by simp
  from Suc.IH [OF this t(2)] show ?case .
qed

lemma braid_loop_returns:
  assumes "unit_draws rnd" "1 \<le> sz"
  shows "braid_inv sz (fst st) \<Longrightarrow> \<exists>st'. braid_loop sz rnd n st = Inr st'"
proof (induction n arbitrary: st)
  case 0
  then show ?case by simp
next
  case (Suc n)
  from Suc.prems have ok: "grid_ok sz (fst st)" by (simp add: braid_inv_def)
  from braid_step_progress [OF ok assms, of "snd st"] obtain t where
    t: "braid_step sz rnd st = Inr t" by auto
  from braid_inv_step [of sz "fst st" rnd "snd st" "fst t" "snd t"] Suc.prems t
  have "braid_inv sz (fst t)" by simp
  from Suc.IH [OF this] t show ?case by simp
qed

text \<open>The states at the head of the loop that adds the extra paths.\<close>

inductive braiding :: "int \<Rightarrow> (nat \<Rightarrow> real) \<Rightarrow> maze_grid \<times> nat \<Rightarrow> bool" for sz rnd where
  start: "carve_phase sz rnd = Inr s \<Longrightarrow> braiding sz rnd (grid s, rnd_pos s)"
| step: "braiding sz rnd st \<Longrightarrow> braid_step sz rnd st = Inr st' \<Longrightarrow> braiding sz rnd st'"

lemma carving_braid_inv: "carving sz rnd s \<Longrightarrow> braid_inv sz (grid s)"
  by (auto dest!: carving_inv simp: full_inv_def carve_inv_def braid_inv_def)

lemma braiding_inv: "braiding sz rnd st \<Longrightarrow> braid_inv sz (fst st)"
proof (induction rule: braiding.induct)
  case (start s)
  from carve_phase_carving [OF this] show ?case by (auto intro: carving_braid_inv)
next
  case (step st st')
  from braid_inv_step [of sz "fst st" rnd "snd st" "fst st'" "snd st'"] step show ?case by simp
qed

lemma generateMaze_inv:
  assumes "generateMaze difficulty rnd sz = Inr g"
  shows "braid_inv sz g \<and> 1 \<le> sz"
proof -
  from assms obtain s where s: "carve_phase sz rnd = Inr s"
    by (cases "carve_phase sz rnd") (simp_all add: generateMaze_def)
  from carve_phase_carving [OF s] have c: "braid_inv sz (grid s)" "1 \<le> sz"
    by (auto intro: carving_braid_inv)
  show ?thesis
  proof (cases "difficulty = Hard")
    case False
    with assms s c show ?thesis by (simp add: generateMaze_def)
  next
    case True
    with assms s obtain st where
      st: "braid_loop sz rnd (nat (extraPaths sz)) (grid s, rnd_pos s) = Inr st" "g = fst st"
      by (cases "braid_loop sz rnd (nat (extraPaths sz)) (grid s, rnd_pos s)")
         (simp_all add: generateMaze_def)
    from braid_loop_inv [OF _ st(1)] c st(2) show ?thesis by simp
  qed
qed

lemma generateMaze_returns:
  assumes "1 \<le> sz" and "unit_draws rnd"
  shows "\<exists>g. generateMaze difficulty rnd sz = Inr g"
proof -
  from carve_phase_result [OF assms] obtain s where
    s: "carve_phase sz rnd = Inr s" "carving sz rnd s" by blast
  from braid_loop_returns [OF assms(2,1), of "(grid s, rnd_pos s)" "nat (extraPaths sz)"]
    carving_braid_inv [OF s(2)]
  obtain st where "braid_loop sz rnd (nat (extraPaths sz)) (grid s, rnd_pos s) = Inr st"
    by auto
  with s(1) show ?thesis by (simp add: generateMaze_def)
qed

lemma generateMaze_error:
  "sz < 1 \<Longrightarrow> generateMaze difficulty rnd sz = Inl TypeError"
  by (simp add: generateMaze_def carve_phase_def carve_start_error)

section \<open>Move attempts\<close>

text \<open>
  The game loop and the swipe handler call \<open>movePlayer\<close> with the offsets \<open>(0, -1)\<close>,
  \<open>(0, 1)\<close>, \<open>(-1, 0)\<close> and \<open>(1, 0)\<close>. A move attempt is named here by the wall that the
  offset crosses.
\<close>

fun attemptMove :: "config \<Rightarrow> game \<Rightarrow> wall_dir \<Rightarrow> int \<Rightarrow> error + game" where
  "attemptMove cfg s Top now = movePlayer cfg s 0 (- 1) now"
| "attemptMove cfg s Bottom now = movePlayer cfg s 0 1 now"
| "attemptMove cfg s Left now = movePlayer cfg s (- 1) 0 now"
| "attemptMove cfg s Right now = movePlayer cfg s 1 0 now"

definition goal :: "config \<Rightarrow> pos" where
  "goal cfg = (maze_size cfg - 1, maze_size cfg - 1)"

text \<open>The cell at a position exists and has the wall.\<close>

definition has_wall :: "maze_grid \<Rightarrow> pos \<Rightarrow> wall_dir \<Rightarrow> bool" where
  "has_wall g p d = (case cell_at g p of None \<Rightarrow> False | Some c \<Rightarrow> wall (walls c) d)"

text \<open>What an accepted move does to the state.\<close>

definition moved :: "config \<Rightarrow> game \<Rightarrow> pos \<Rightarrow> int \<Rightarrow> game" where
  "moved cfg s p now =
     s\<lparr>lastMoveTime := now, playerPos := p, moveCount := moveCount s + 1,
       trail := trail s @ [p],
       gameState := (if p = goal cfg then Won else gameState s)\<rparr>"

lemma cell_at_rowD:
  "cell_at g p = Some c \<Longrightarrow> \<exists>row. nth_opt g (snd p) = Some row \<and> nth_opt row (fst p) = Some c"
  by (auto simp: cell_at_def split: option.splits)

lemma movePlayer_rejects:
  assumes "gameState s \<noteq> Playing \<or> maze s = [] \<or> now - lastMoveTime s < MOVE_COOLDOWN
           \<or> \<not> in_bounds (maze_size cfg) (fst (playerPos s) + dx, snd (playerPos s) + dy)"
  shows "movePlayer cfg s dx dy now = Inr s"
  using assms by (auto simp: movePlayer_def in_bounds_def Let_def)

lemma blocked_Some: "blocked cond (Some c) d = Inr (cond \<and> wall (walls c) d)"
  by (simp add: blocked_def)

lemma movePlayer_step:
  assumes "gameState s = Playing" "maze s \<noteq> []" "\<not> now - lastMoveTime s < MOVE_COOLDOWN"
    and "in_bounds (maze_size cfg) (fst (playerPos s) + dx, snd (playerPos s) + dy)"
    and "cell_at (maze s) (playerPos s) = Some c"
  shows "movePlayer cfg s dx dy now =
           (if dx = 1 \<and> wall (walls c) Right \<or> dx = - 1 \<and> wall (walls c) Left
               \<or> dy = 1 \<and> wall (walls c) Bottom \<or> dy = - 1 \<and> wall (walls c) Top
            then Inr s
            else Inr (moved cfg s (fst (playerPos s) + dx, snd (playerPos s) + dy) now))"
proof -
  from cell_at_rowD [OF assms(5)] obtain row where
    r: "nth_opt (maze s) (snd (playerPos s)) = Some row" "nth_opt row (fst (playerPos s)) = Some c"
    by blast
  let ?p = "(fst (playerPos s) + dx, snd (playerPos s) + dy)"
  let ?s1 = "s\<lparr>lastMoveTime := now, playerPos := ?p, moveCount := moveCount s + 1,
               trail := trail s @ [?p]\<rparr>"
  have m: "(if fst ?p = maze_size cfg - 1 \<and> snd ?p = maze_size cfg - 1
            then Inr (?s1\<lparr>gameState := Won\<rparr>) else Inr ?s1) = Inr (moved cfg s ?p now)"
    using assms(1) by (simp add: moved_def goal_def prod_eq_iff)
  from assms(4) have b: "\<not> (fst (playerPos s) + dx < 0 \<or> fst (playerPos s) + dx \<ge> maze_size cfg
       \<or> snd (playerPos s) + dy < 0 \<or> snd (playerPos s) + dy \<ge> maze_size cfg)"
    by (auto simp: in_bounds_def)
  from assms(2) have l: "length (maze s) \<noteq> 0" by simp
  have "movePlayer cfg s dx dy now =
     (case Inr (dx = 1 \<and> wall (walls c) Right) of Inl e \<Rightarrow> Inl e
      | Inr True \<Rightarrow> Inr s
      | Inr False \<Rightarrow>
     (case Inr (dx = - 1 \<and> wall (walls c) Left) of Inl e \<Rightarrow> Inl e
      | Inr True \<Rightarrow> Inr s
      | Inr False \<Rightarrow>
     (case Inr (dy = 1 \<and> wall (walls c) Bottom) of Inl e \<Rightarrow> Inl e
      | Inr True \<Rightarrow> Inr s
      | Inr False \<Rightarrow>
     (case Inr (dy = - 1 \<and> wall (walls c) Top) of Inl e \<Rightarrow> Inl e
      | Inr True \<Rightarrow> Inr s
      | Inr False \<Rightarrow> Inr (moved cfg s ?p now)))))"
    unfolding movePlayer_def Let_def
    by (simp only: assms(1,3) l b r blocked_Some m [unfolded fst_conv snd_conv] option.case
          if_False simp_thms fst_conv snd_conv)
  also have "\<dots> = (if dx = 1 \<and> wall (walls c) Right \<or> dx = - 1 \<and> wall (walls c) Left
               \<or> dy = 1 \<and> wall (walls c) Bottom \<or> dy = - 1 \<and> wall (walls c) Top
            then Inr s else Inr (moved cfg s ?p now))"
    by (simp add: bool.case_eq_if)
  finally show ?thesis .
qed

section \<open>A small maze to run the game on\<close>

text \<open>
  With every random draw equal to 0 the carver always takes the first unvisited neighbour;
  on a grid of size 2 it walks right, down and left.
\<close>

definition zero_draws :: "nat \<Rightarrow> real" where
  "zero_draws k = 0"

definition maze2 :: maze_grid where
  "maze2 =
     [[\<lparr>cell_x = 0, cell_y = 0,
        walls = \<lparr>top_wall = True, right_wall = False, bottom_wall = True, left_wall = True\<rparr>,
        visited = True\<rparr>,
       \<lparr>cell_x = 1, cell_y = 0,
        walls = \<lparr>top_wall = True, right_wall = True, bottom_wall = False, left_wall = False\<rparr>,
        visited = True\<rparr>],
      [\<lparr>cell_x = 0, cell_y = 1,
        walls = \<lparr>top_wall = True, right_wall = False, bottom_wall = True, left_wall = True\<rparr>,
        visited = True\<rparr>,
       \<lparr>cell_x = 1, cell_y = 1,
        walls = \<lparr>top_wall = False, right_wall = True, bottom_wall = True, left_wall = False\<rparr>,
        visited = True\<rparr>]]"

definition config2 :: config where
  "config2 = \<lparr>maze_size = 2, timeLimit = 0, fogRadius = Infinity\<rparr>"

definition game2 :: "pos \<Rightarrow> int \<Rightarrow> game" where
  "game2 p t =
     \<lparr>gameState = Playing, moveCount = 0, playerPos = p, maze = maze2, trail = [p],
      lastMoveTime = t\<rparr>"

lemma unit_zero_draws: "unit_draws zero_draws"
  by (simp add: unit_draws_def zero_draws_def)

lemma upto_0_1: "[0..1::int] = [0, 1]"
  by (simp add: upto.simps)

lemma carve_phase_maze2:
  "carve_phase 2 zero_draws =
     Inr \<lparr>grid = maze2, stack = [], rnd_pos = 3, pushes = 4, pops = 4,
          marks = [(0, 0), (1, 0), (1, 1), (0, 1)]\<rparr>"
  by (simp add: carve_phase_def carve_start_def init_grid_def cell_at_def nth_opt_def
        update_cell_def new_cell_def mark_visited_def carve_step_def directions_def Let_def upto_0_1
        zero_draws_def random_index_def clear_cell_wall_def maze2_def)

lemma generateMaze_maze2: "generateMaze Easy zero_draws 2 = Inr maze2"
  by (simp add: generateMaze_def carve_phase_maze2)

lemma cell_at_maze2:
  "cell_at maze2 (0, 0) = Some (maze2 ! 0 ! 0)" "cell_at maze2 (1, 0) = Some (maze2 ! 0 ! 1)"
  "cell_at maze2 (0, 1) = Some (maze2 ! 1 ! 0)" "cell_at maze2 (1, 1) = Some (maze2 ! 1 ! 1)"
  by (simp_all add: cell_at_def nth_opt_def maze2_def)

section \<open>Moves\<close>

text \<open>
  Claim C2. For every maze, player position and direction such that the candidate cell
  is outside the grid or the wall of the player's cell in that direction is present, a
  move attempt returns the state unchanged and raises no error.
\<close>

theorem rejected_move_is_noop:
  assumes "\<not> in_bounds (maze_size cfg) (neighbour (playerPos s) d) \<or> has_wall (maze s) (playerPos s) d"
  shows "attemptMove cfg s d now = Inr s"
proof (cases "gameState s \<noteq> Playing \<or> maze s = [] \<or> now - lastMoveTime s < MOVE_COOLDOWN
           \<or> \<not> in_bounds (maze_size cfg) (neighbour (playerPos s) d)")
  case True
  then show ?thesis
    by (cases d) (simp_all add: movePlayer_rejects)
next
  case False
  with assms obtain c where c: "cell_at (maze s) (playerPos s) = Some c" "wall (walls c) d"
    by (auto simp: has_wall_def split: option.splits)
  from False c show ?thesis
    by (cases d) (simp_all add: movePlayer_step)
qed

theorem rejected_move_is_noop_witness:
  "has_wall (maze (game2 (0, 0) 0)) (playerPos (game2 (0, 0) 0)) Bottom
   \<and> attemptMove config2 (game2 (0, 0) 0) Bottom 1000 = Inr (game2 (0, 0) 0)
   \<and> \<not> in_bounds (maze_size config2) (neighbour (playerPos (game2 (0, 0) 0)) Top)
   \<and> attemptMove config2 (game2 (0, 0) 0) Top 1000 = Inr (game2 (0, 0) 0)"
proof -
  have w: "has_wall (maze (game2 (0, 0) 0)) (playerPos (game2 (0, 0) 0)) Bottom"
    by (simp add: has_wall_def game2_def cell_at_maze2) (simp add: maze2_def)
  have b: "\<not> in_bounds (maze_size config2) (neighbour (playerPos (game2 (0, 0) 0)) Top)"
    by (simp add: game2_def in_bounds_def)
  from w b rejected_move_is_noop [of config2 "game2 (0, 0) 0" Bottom 1000]
    rejected_move_is_noop [of config2 "game2 (0, 0) 0" Top 1000]
  show ?thesis by blast
qed

lemma blocked_None: "blocked cond None d = (if cond then Inl TypeError else Inr False)"
  by (simp add: blocked_def)

lemma movePlayer_missing_cell:
  assumes "gameState s = Playing" "maze s \<noteq> []" "\<not> now - lastMoveTime s < MOVE_COOLDOWN"
    and "in_bounds (maze_size cfg) (fst (playerPos s) + dx, snd (playerPos s) + dy)"
    and "cell_at (maze s) (playerPos s) = None"
  shows "movePlayer cfg s dx dy now = Inl TypeError
         \<or> movePlayer cfg s dx dy now
              = Inr (moved cfg s (fst (playerPos s) + dx, snd (playerPos s) + dy) now)"
proof (cases "nth_opt (maze s) (snd (playerPos s))")
  case None
  from assms(4) have b: "\<not> (fst (playerPos s) + dx < 0 \<or> fst (playerPos s) + dx \<ge> maze_size cfg
       \<or> snd (playerPos s) + dy < 0 \<or> snd (playerPos s) + dy \<ge> maze_size cfg)"
    by (auto simp: in_bounds_def)
  from assms(2) have l: "length (maze s) \<noteq> 0" by simp
  have "movePlayer cfg s dx dy now = Inl TypeError"
    unfolding movePlayer_def Let_def
    by (simp only: assms(1,3) l b None option.case if_False simp_thms)
  then show ?thesis ..
next
  case (Some row)
  with assms(5) have r: "nth_opt row (fst (playerPos s)) = None"
    by (simp add: cell_at_def)
  let ?p = "(fst (playerPos s) + dx, snd (playerPos s) + dy)"
  let ?s1 = "s\<lparr>lastMoveTime := now, playerPos := ?p, moveCount := moveCount s + 1,
               trail := trail s @ [?p]\<rparr>"
  have m: "(if fst ?p = maze_size cfg - 1 \<and> snd ?p = maze_size cfg - 1
            then Inr (?s1\<lparr>gameState := Won\<rparr>) else Inr ?s1) = Inr (moved cfg s ?p now)"
    using assms(1) by (simp add: moved_def goal_def prod_eq_iff)
  from assms(4) have b: "\<not> (fst (playerPos s) + dx < 0 \<or> fst (playerPos s) + dx \<ge> maze_size cfg
       \<or> snd (playerPos s) + dy < 0 \<or> snd (playerPos s) + dy \<ge> maze_size cfg)"
    by (auto simp: in_bounds_def)
  from assms(2) have l: "length (maze s) \<noteq> 0" by simp
  have "movePlayer cfg s dx dy now =
     (case (if dx = 1 then Inl TypeError else Inr False) of Inl e \<Rightarrow> Inl e
      | Inr True \<Rightarrow> Inr s
      | Inr False \<Rightarrow>
     (case (if dx = - 1 then Inl TypeError else Inr False) of Inl e \<Rightarrow> Inl e
      | Inr True \<Rightarrow> Inr s
      | Inr False \<Rightarrow>
     (case (if dy = 1 then Inl TypeError else Inr False) of Inl e \<Rightarrow> Inl e
      | Inr True \<Rightarrow> Inr s
      | Inr False \<Rightarrow>
     (case (if dy = - 1 then Inl TypeError else Inr False) of Inl e \<Rightarrow> Inl e
      | Inr True \<Rightarrow> Inr s
      | Inr False \<Rightarrow> Inr (moved cfg s ?p now)))))"
    unfolding movePlayer_def Let_def
    by (simp only: assms(1,3) l b Some r blocked_None m [unfolded fst_conv snd_conv] option.case
          if_False simp_thms fst_conv snd_conv)
  then show ?thesis by (simp split: if_splits)
qed

lemma movePlayer_result:
  assumes "gameState s = Playing" and "movePlayer cfg s dx dy now = Inr s'"
  shows "s' = s \<or> s' = moved cfg s (fst (playerPos s) + dx, snd (playerPos s) + dy) now"
proof (cases "maze s = [] \<or> now - lastMoveTime s < MOVE_COOLDOWN
           \<or> \<not> in_bounds (maze_size cfg) (fst (playerPos s) + dx, snd (playerPos s) + dy)")
  case True
  then have "movePlayer cfg s dx dy now = Inr s"
    by (intro movePlayer_rejects) blast
  with assms(2) show ?thesis by simp
next
  case False
  show ?thesis
  proof (cases "cell_at (maze s) (playerPos s)")
    case None
    from movePlayer_missing_cell [OF assms(1) _ _ _ None, of now cfg dx dy] False assms(2)
    show ?thesis by auto
  next
    case (Some c)
    from movePlayer_step [OF assms(1) _ _ _ Some, of now cfg dx dy] False assms(2)
    show ?thesis by (auto split: if_splits)
  qed
qed

lemma moved_fields [simp]:
  "playerPos (moved cfg s p now) = p"
  "moveCount (moved cfg s p now) = moveCount s + 1"
  "maze (moved cfg s p now) = maze s"
  "trail (moved cfg s p now) = trail s @ [p]"
  "lastMoveTime (moved cfg s p now) = now"
  "gameState (moved cfg s p now) = (if p = goal cfg then Won else gameState s)"
  by (simp_all add: moved_def)

lemma moved_neq [simp]: "moved cfg s p now \<noteq> s"
proof
  assume "moved cfg s p now = s"
  then have "moveCount (moved cfg s p now) = moveCount s" by simp
  then show False by simp
qed

text \<open>
  Claim C4, as amended. In the playing state, once the cool-down of 150 ms since the last
  accepted move has passed, a move attempt whose candidate cell is inside the grid and not
  behind a wall of the player's cell moves the player there, counts the move, extends the
  trail and records the time. Within the cool-down the same attempt changes nothing: the
  cool-down is checked by \<open>movePlayer\<close> itself.
\<close>

theorem legal_move_after_cooldown:
  assumes "gameState s = Playing"
    and "in_bounds (maze_size cfg) (neighbour (playerPos s) d)"
    and "cell_at (maze s) (playerPos s) \<noteq> None"
    and "\<not> has_wall (maze s) (playerPos s) d"
  shows "(MOVE_COOLDOWN \<le> now - lastMoveTime s \<longrightarrow>
            (\<exists>s'. attemptMove cfg s d now = Inr s' \<and> playerPos s' = neighbour (playerPos s) d
               \<and> moveCount s' = moveCount s + 1
               \<and> trail s' = trail s @ [neighbour (playerPos s) d]
               \<and> lastMoveTime s' = now \<and> maze s' = maze s))
         \<and> (now - lastMoveTime s < MOVE_COOLDOWN \<longrightarrow> attemptMove cfg s d now = Inr s)"
proof -
  from assms(3,4) obtain c where c: "cell_at (maze s) (playerPos s) = Some c" "\<not> wall (walls c) d"
    by (auto simp: has_wall_def)
  from c(1) have ne: "maze s \<noteq> []" by (auto simp: cell_at_Some)
  have "attemptMove cfg s d now = Inr (moved cfg s (neighbour (playerPos s) d) now)"
    if "MOVE_COOLDOWN \<le> now - lastMoveTime s"
    using that assms(1,2) ne c by (cases d) (simp_all add: movePlayer_step)
  moreover have "attemptMove cfg s d now = Inr s" if "now - lastMoveTime s < MOVE_COOLDOWN"
    using that by (cases d) (simp_all add: movePlayer_rejects)
  ultimately show ?thesis by simp
qed

theorem legal_move_after_cooldown_witness:
  "gameState (game2 (0, 0) 900) = Playing
   \<and> in_bounds (maze_size config2) (neighbour (playerPos (game2 (0, 0) 900)) Right)
   \<and> cell_at (maze (game2 (0, 0) 900)) (playerPos (game2 (0, 0) 900)) \<noteq> None
   \<and> \<not> has_wall (maze (game2 (0, 0) 900)) (playerPos (game2 (0, 0) 900)) Right
   \<and> MOVE_COOLDOWN \<le> 1050 - lastMoveTime (game2 (0, 0) 900)
   \<and> (\<exists>s'. attemptMove config2 (game2 (0, 0) 900) Right 1050 = Inr s' \<and> playerPos s' = (1, 0))
   \<and> 1000 - lastMoveTime (game2 (0, 0) 900) < MOVE_COOLDOWN
   \<and> attemptMove config2 (game2 (0, 0) 900) Right 1000 = Inr (game2 (0, 0) 900)"
proof -
  have h: "gameState (game2 (0, 0) 900) = Playing"
    "in_bounds (maze_size config2) (neighbour (playerPos (game2 (0, 0) 900)) Right)"
    "cell_at (maze (game2 (0, 0) 900)) (playerPos (game2 (0, 0) 900)) \<noteq> None"
    "\<not> has_wall (maze (game2 (0, 0) 900)) (playerPos (game2 (0, 0) 900)) Right"
    by (simp_all add: game2_def config2_def in_bounds_def has_wall_def cell_at_maze2)
       (simp add: maze2_def)
  have t: "MOVE_COOLDOWN \<le> 1050 - lastMoveTime (game2 (0, 0) 900)"
    "1000 - lastMoveTime (game2 (0, 0) 900) < MOVE_COOLDOWN"
    by (simp_all add: game2_def MOVE_COOLDOWN_def)
  from legal_move_after_cooldown [OF h, of 1050] t(1)
  have "\<exists>s'. attemptMove config2 (game2 (0, 0) 900) Right 1050 = Inr s' \<and> playerPos s' = (1, 0)"
    by (auto simp: game2_def)
  moreover from legal_move_after_cooldown [OF h, of 1000] t(2)
  have "attemptMove config2 (game2 (0, 0) 900) Right 1000 = Inr (game2 (0, 0) 900)"
    by simp
  ultimately show ?thesis using h t by blast
qed

text \<open>
  Claim C4 as stated fails: in the playing state, with the candidate cell inside the
  grid and no wall in the way, an attempt 100 ms after the last accepted move leaves the
  player where it was.
\<close>

theorem cooldown_rejects_legal_move:
  "gameState (game2 (0, 0) 900) = Playing
   \<and> in_bounds (maze_size config2) (neighbour (playerPos (game2 (0, 0) 900)) Right)
   \<and> \<not> has_wall (maze (game2 (0, 0) 900)) (playerPos (game2 (0, 0) 900)) Right
   \<and> attemptMove config2 (game2 (0, 0) 900) Right 1000 = Inr (game2 (0, 0) 900)
   \<and> playerPos (game2 (0, 0) 900) \<noteq> neighbour (playerPos (game2 (0, 0) 900)) Right"
  by (simp add: game2_def config2_def in_bounds_def has_wall_def cell_at_maze2
        movePlayer_def MOVE_COOLDOWN_def)
     (simp add: maze2_def)

text \<open>
  Claim C5. A call of \<open>movePlayer\<close> in the playing state ends in the state \<open>Won\<close> exactly
  when it moved the player and the new position is the goal cell \<open>(N - 1, N - 1)\<close>; after
  every other call the state is still \<open>Playing\<close>. When the player does not already stand on
  the goal, the state is \<open>Won\<close> exactly when the resulting position is the goal. In any
  other state the call changes nothing. The call returns whenever the player stands on a
  cell of the maze.
\<close>

theorem won_iff_goal_reached:
  "(cell_at (maze s) (playerPos s) \<noteq> None \<longrightarrow> (\<exists>s'. movePlayer cfg s dx dy now = Inr s'))
   \<and> (movePlayer cfg s dx dy now = Inr s' \<longrightarrow>
        (gameState s = Playing \<longrightarrow>
           (gameState s' = Won \<longleftrightarrow> s' \<noteq> s \<and> playerPos s' = goal cfg)
           \<and> (gameState s' \<noteq> Won \<longrightarrow> gameState s' = Playing)
           \<and> (playerPos s \<noteq> goal cfg \<longrightarrow> (gameState s' = Won \<longleftrightarrow> playerPos s' = goal cfg)))
        \<and> (gameState s \<noteq> Playing \<longrightarrow> s' = s))"
proof (intro conjI impI)
  assume "cell_at (maze s) (playerPos s) \<noteq> None"
  then obtain c where c: "cell_at (maze s) (playerPos s) = Some c" by auto
  show "\<exists>s'. movePlayer cfg s dx dy now = Inr s'"
  proof (cases "gameState s \<noteq> Playing \<or> maze s = [] \<or> now - lastMoveTime s < MOVE_COOLDOWN
           \<or> \<not> in_bounds (maze_size cfg) (fst (playerPos s) + dx, snd (playerPos s) + dy)")
    case True
    then show ?thesis by (simp add: movePlayer_rejects)
  next
    case False
    then show ?thesis by (simp add: movePlayer_step [OF _ _ _ _ c])
  qed
next
  assume m: "movePlayer cfg s dx dy now = Inr s'" and p: "gameState s = Playing"
  from movePlayer_result [OF p m] p
  show "gameState s' = Won \<longleftrightarrow> s' \<noteq> s \<and> playerPos s' = goal cfg"
    by (auto split: if_splits)
  from movePlayer_result [OF p m] p
  show "gameState s' \<noteq> Won \<Longrightarrow> gameState s' = Playing"
    by (auto split: if_splits)
  from movePlayer_result [OF p m] p
  show "playerPos s \<noteq> goal cfg \<Longrightarrow> gameState s' = Won \<longleftrightarrow> playerPos s' = goal cfg"
    by (auto split: if_splits)
next
  assume m: "movePlayer cfg s dx dy now = Inr s'" and p: "gameState s \<noteq> Playing"
  from p have "movePlayer cfg s dx dy now = Inr s" by (simp add: movePlayer_rejects)
  with m show "s' = s" by simp
qed

theorem won_iff_goal_reached_witness:
  "cell_at (maze (game2 (1, 0) 0)) (playerPos (game2 (1, 0) 0)) \<noteq> None
   \<and> gameState (game2 (1, 0) 0) = Playing
   \<and> movePlayer config2 (game2 (1, 0) 0) 0 1 1000 = Inr (moved config2 (game2 (1, 0) 0) (1, 1) 1000)
   \<and> gameState (moved config2 (game2 (1, 0) 0) (1, 1) 1000) = Won
   \<and> playerPos (moved config2 (game2 (1, 0) 0) (1, 1) 1000) = goal config2"
proof -
  have h: "gameState (game2 (1, 0) 0) = Playing" by (simp add: game2_def)
  have c: "cell_at (maze (game2 (1, 0) 0)) (playerPos (game2 (1, 0) 0)) = Some (maze2 ! 0 ! 1)"
    by (simp add: game2_def cell_at_maze2)
  have m: "movePlayer config2 (game2 (1, 0) 0) 0 1 1000
             = Inr (moved config2 (game2 (1, 0) 0) (1, 1) 1000)"
    by (subst movePlayer_step [OF h _ _ _ c])
       (simp_all add: game2_def config2_def in_bounds_def MOVE_COOLDOWN_def maze2_def)
  from won_iff_goal_reached [of "game2 (1, 0) 0" config2 0 1 1000
      "moved config2 (game2 (1, 0) 0) (1, 1) 1000"] h m c
  show ?thesis by (simp add: goal_def config2_def)
qed

lemma has_wall_wall_at:
  "grid_ok sz g \<Longrightarrow> in_bounds sz p \<Longrightarrow> has_wall g p d = wall_at g p d"
  by (auto simp: has_wall_def wall_at_def dest: grid_ok_cell)

section \<open>Properties of every generated maze\<close>

text \<open>
  Claim C3, as amended. A size below 1 makes \<open>generateMaze\<close> fail with the error raised
  by reading \<open>grid[0][0]\<close> of the empty grid. For every size \<open>N\<close> of at least 1 the grid
  built first has \<open>N\<close> rows of \<open>N\<close> cells, each with its four walls present and not yet
  visited, and \<open>generateMaze\<close> returns an \<open>N\<close> by \<open>N\<close> grid for every random sequence.
\<close>

theorem grid_construction:
  "(sz < 1 \<longrightarrow> generateMaze difficulty rnd sz = Inl TypeError)
   \<and> (1 \<le> sz \<longrightarrow>
        length (init_grid sz) = nat sz
        \<and> (\<forall>row \<in> set (init_grid sz). length row = nat sz
              \<and> (\<forall>c \<in> set row. (\<forall>d. wall (walls c) d) \<and> \<not> visited c))
        \<and> (unit_draws rnd \<longrightarrow>
              (\<exists>g. generateMaze difficulty rnd sz = Inr g \<and> length g = nat sz
                 \<and> (\<forall>row \<in> set g. length row = nat sz))))"
proof (intro conjI impI)
  assume "sz < 1"
  then show "generateMaze difficulty rnd sz = Inl TypeError" by (rule generateMaze_error)
next
  show "length (init_grid sz) = nat sz" by (simp add: init_grid_def)
next
  have "wall (walls (new_cell x y)) d" for x y d
    by (cases d) (simp_all add: new_cell_def)
  then show "\<forall>row \<in> set (init_grid sz). length row = nat sz
              \<and> (\<forall>c \<in> set row. (\<forall>d. wall (walls c) d) \<and> \<not> visited c)"
    by (auto simp: init_grid_def) (simp add: new_cell_def)
next
  assume "1 \<le> sz" "unit_draws rnd"
  from generateMaze_returns [OF this] obtain g where g: "generateMaze difficulty rnd sz = Inr g"
    by blast
  from generateMaze_inv [OF g] have "grid_ok sz g" by (simp add: braid_inv_def)
  with g show "\<exists>g. generateMaze difficulty rnd sz = Inr g \<and> length g = nat sz
                 \<and> (\<forall>row \<in> set g. length row = nat sz)"
    unfolding grid_ok_iff by blast
qed

theorem grid_construction_witness:
  "(0 :: int) < 1 \<and> generateMaze Easy zero_draws 0 = Inl TypeError
   \<and> (1 :: int) \<le> 2 \<and> length (init_grid 2) = nat 2 \<and> unit_draws zero_draws
   \<and> (\<exists>g. generateMaze Easy zero_draws 2 = Inr g \<and> length g = nat 2)"
  using grid_construction [of 0 Easy zero_draws] grid_construction [of 2 Easy zero_draws]
    unit_zero_draws
  by auto

text \<open>
  Claim C3 as stated fails at size 1, which is below 2 and is not rejected: the
  generator returns the grid of one cell.
\<close>

theorem size_one_is_accepted:
  "(1 :: int) < 2 \<and> unit_draws zero_draws
   \<and> generateMaze Easy zero_draws 1 =
       Inr [[\<lparr>cell_x = 0, cell_y = 0,
              walls = \<lparr>top_wall = True, right_wall = True, bottom_wall = True,
                        left_wall = True\<rparr>,
              visited = True\<rparr>]]"
  by (simp add: unit_zero_draws generateMaze_def carve_phase_def carve_start_def init_grid_def
        cell_at_def nth_opt_def update_cell_def new_cell_def mark_visited_def carve_step_def
        directions_def Let_def upto.simps)

text \<open>
  Claim C7. At the head of every iteration of the carving loop and of the loop that adds
  the extra paths, and in the grid that \<open>generateMaze\<close> returns, the grid is well formed
  and for every two adjacent cells the wall flag of the one facing the other equals the
  wall flag of the other facing the one. A move of the player never changes the maze.
\<close>

theorem walls_always_matched:
  "(carving sz rnd s \<longrightarrow> grid_ok sz (grid s) \<and> walls_matched sz (grid s))
   \<and> (braiding sz rnd st \<longrightarrow> grid_ok sz (fst st) \<and> walls_matched sz (fst st))
   \<and> (generateMaze difficulty rnd sz = Inr g \<longrightarrow> grid_ok sz g \<and> walls_matched sz g)
   \<and> (movePlayer cfg gm dx dy now = Inr gm' \<longrightarrow> maze gm' = maze gm)"
proof (intro conjI impI)
  assume "carving sz rnd s"
  from carving_braid_inv [OF this] show "grid_ok sz (grid s)" "walls_matched sz (grid s)"
    by (simp_all add: braid_inv_def)
next
  assume "braiding sz rnd st"
  from braiding_inv [OF this] show "grid_ok sz (fst st)" "walls_matched sz (fst st)"
    by (simp_all add: braid_inv_def)
next
  assume "generateMaze difficulty rnd sz = Inr g"
  from generateMaze_inv [OF this] show "grid_ok sz g" "walls_matched sz g"
    by (simp_all add: braid_inv_def)
next
  assume m: "movePlayer cfg gm dx dy now = Inr gm'"
  show "maze gm' = maze gm"
  proof (cases "gameState gm = Playing")
    case True
    from movePlayer_result [OF True m] show ?thesis by auto
  next
    case False
    then have "movePlayer cfg gm dx dy now = Inr gm" by (simp add: movePlayer_rejects)
    with m show ?thesis by simp
  qed
qed

definition carved2 :: carve_state where
  "carved2 =
     \<lparr>grid = maze2, stack = [], rnd_pos = 3, pushes = 4, pops = 4,
      marks = [(0, 0), (1, 0), (1, 1), (0, 1)]\<rparr>"

theorem walls_always_matched_witness:
  "carving 2 zero_draws carved2 \<and> braiding 2 zero_draws (maze2, 3)
   \<and> generateMaze Easy zero_draws 2 = Inr maze2
   \<and> movePlayer config2 (game2 (1, 0) 0) 0 1 1000 = Inr (moved config2 (game2 (1, 0) 0) (1, 1) 1000)
   \<and> grid_ok 2 maze2 \<and> walls_matched 2 maze2
   \<and> maze (moved config2 (game2 (1, 0) 0) (1, 1) 1000) = maze (game2 (1, 0) 0)"
proof -
  have p: "carve_phase 2 zero_draws = Inr carved2"
    by (simp add: carve_phase_maze2 carved2_def)
  from carve_phase_carving [OF p] have 1: "carving 2 zero_draws carved2" by simp
  from braiding.start [OF p] have 2: "braiding 2 zero_draws (maze2, 3)"
    by (simp add: carved2_def)
  have h: "gameState (game2 (1, 0) 0) = Playing" by (simp add: game2_def)
  have c: "cell_at (maze (game2 (1, 0) 0)) (playerPos (game2 (1, 0) 0)) = Some (maze2 ! 0 ! 1)"
    by (simp add: game2_def cell_at_maze2)
  have 4: "movePlayer config2 (game2 (1, 0) 0) 0 1 1000
             = Inr (moved config2 (game2 (1, 0) 0) (1, 1) 1000)"
    by (subst movePlayer_step [OF h _ _ _ c])
       (simp_all add: game2_def config2_def in_bounds_def MOVE_COOLDOWN_def maze2_def)
  from walls_always_matched [of 2 zero_draws carved2 "(maze2, 3)" Easy maze2 config2
      "game2 (1, 0) 0" 0 1 1000 "moved config2 (game2 (1, 0) 0) (1, 1) 1000"]
    1 2 4 generateMaze_maze2
  show ?thesis by (simp add: carved2_def)
qed

text \<open>
  Claim C10. In every grid that \<open>generateMaze\<close> returns, whatever the size, the
  difficulty and the random sequence, every wall on the outer border is present: the top
  wall of each cell of row 0, the bottom wall of each cell of the last row, the left wall
  of each cell of column 0 and the right wall of each cell of the last column.
\<close>

theorem border_walls_remain:
  assumes "generateMaze difficulty rnd sz = Inr g" and "0 \<le> i" and "i < sz"
  shows "has_wall g (i, 0) Top \<and> has_wall g (i, sz - 1) Bottom
         \<and> has_wall g (0, i) Left \<and> has_wall g (sz - 1, i) Right"
proof -
  from generateMaze_inv [OF assms(1)] have ok: "grid_ok sz g" and b: "border_walled sz g"
    by (simp_all add: braid_inv_def)
  have w: "has_wall g p d" if "in_bounds sz p" "\<not> in_bounds sz (neighbour p d)" for p d
    using that b has_wall_wall_at [OF ok that(1)] unfolding border_walled_iff by blast
  from assms(2,3) show ?thesis
    by (intro conjI w) (simp_all add: in_bounds_def)
qed

theorem border_walls_remain_witness:
  "generateMaze Easy zero_draws 2 = Inr maze2 \<and> (0 :: int) \<le> 1 \<and> (1 :: int) < 2
   \<and> has_wall maze2 (1, 0) Top \<and> has_wall maze2 (1, 2 - 1) Bottom
   \<and> has_wall maze2 (0, 1) Left \<and> has_wall maze2 (2 - 1, 1) Right"
  using border_walls_remain [OF generateMaze_maze2, of 1] generateMaze_maze2 by simp

section \<open>Connected mazes\<close>

lemma crossing_edge:
  assumes "successively E p" and "p \<noteq> []" and "hd p \<in> S" and "last p \<notin> S"
  shows "\<exists>x y. E x y \<and> x \<in> S \<and> y \<notin> S"
  using assms
proof (induction p)
  case Nil
  then show ?case by simp
next
  case (Cons a p)
  show ?case
  proof (cases p)
    case Nil
    with Cons.prems show ?thesis by simp
  next
    case (Cons b q)
    show ?thesis
    proof (cases "b \<in> S")
      case True
      with Cons.IH Cons.prems Cons show ?thesis by simp
    next
      case False
      with Cons.prems Cons show ?thesis by auto
    qed
  qed
qed

text \<open>
  A connected maze has at least \<open>N\<^sup>2 - 1\<close> open wall pairs: growing a set of cells from
  \<open>(0, 0)\<close> along an opening that leaves it adds one cell and at least one open pair inside
  the set.
\<close>

definition inner_pairs :: "int \<Rightarrow> maze_grid \<Rightarrow> pos set \<Rightarrow> (pos \<times> wall_dir) set" where
  "inner_pairs sz g S = {(c, d). (c, d) \<in> pair_set sz g \<and> c \<in> S \<and> neighbour c d \<in> S}"

lemma inner_pairs_grow:
  assumes xy: "passage sz g x y" and x: "x \<in> S" and y: "y \<notin> S"
  shows "Suc (card (inner_pairs sz g S)) \<le> card (inner_pairs sz g (insert y S))"
proof -
  from xy obtain k where k: "neighbour x k = y"
    unfolding passage_iff by blast
  then have bk: "neighbour y (opposite k) = x" by auto
  let ?e = "if k = Right \<or> k = Bottom then (x, k) else (y, opposite k)"
  have "opposite k = Right \<or> opposite k = Bottom" if "\<not> (k = Right \<or> k = Bottom)"
    using that by (cases k) simp_all
  with xy passage_sym [OF xy] k bk have e_in: "?e \<in> inner_pairs sz g (insert y S)"
    using x by (auto simp: inner_pairs_def pair_set_def)
  from y k bk have e_out: "?e \<notin> inner_pairs sz g S"
    by (auto simp: inner_pairs_def)
  have sub: "inner_pairs sz g S \<subseteq> inner_pairs sz g (insert y S)"
    by (auto simp: inner_pairs_def)
  have fin: "finite (inner_pairs sz g (insert y S))"
    by (rule finite_subset [OF _ finite_pair_set [of sz g]]) (auto simp: inner_pairs_def)
  from e_in e_out sub have "insert ?e (inner_pairs sz g S) \<subseteq> inner_pairs sz g (insert y S)"
    by blast
  from card_mono [OF fin this] e_out fin sub show ?thesis
    by (simp add: finite_subset)
qed

lemma connected_pairs_bound:
  assumes conn: "maze_connected sz g" and sz: "1 \<le> sz"
  shows "card S \<le> Suc (card (inner_pairs sz g S)) \<Longrightarrow> (0, 0) \<in> S \<Longrightarrow>
         S \<subseteq> {p. in_bounds sz p} \<Longrightarrow> card ({p. in_bounds sz p} - S) = n \<Longrightarrow>
         card {p. in_bounds sz p} \<le> Suc (card (pair_set sz g))"
proof (induction n arbitrary: S)
  case 0
  then have "{p. in_bounds sz p} - S = {}" by simp
  with "0.prems"(3) have S: "S = {p. in_bounds sz p}" by blast
  have "inner_pairs sz g S \<subseteq> pair_set sz g" by (auto simp: inner_pairs_def)
  then have "card (inner_pairs sz g S) \<le> card (pair_set sz g)"
    by (intro card_mono) simp_all
  with "0.prems"(1) S show ?case by simp
next
  case (Suc n)
  let ?C = "{p. in_bounds sz p}"
  have "?C - S \<noteq> {}"
  proof
    assume "?C - S = {}"
    then have "card (?C - S) = 0" by (simp only: card.empty)
    with Suc.prems(4) show False by simp
  qed
  then obtain v where v: "in_bounds sz v" "v \<notin> S" by blast
  from sz have "in_bounds sz (0, 0)" by (simp add: in_bounds_def)
  with conn v(1) obtain p where p: "walk (passage sz g) (0, 0) v p"
    unfolding maze_connected_def by (metis set_cells)
  with Suc.prems(2) v(2) obtain x y where xy: "passage sz g x y" "x \<in> S" "y \<notin> S"
    using crossing_edge [of "passage sz g" p S] by (auto simp: walk_def)
  from xy(1) have yb: "in_bounds sz y" by (simp add: passage_iff)
  have finS: "finite S" using Suc.prems(3) by (rule finite_subset) simp
  have 1: "card (insert y S) \<le> Suc (card (inner_pairs sz g (insert y S)))"
    using inner_pairs_grow [OF xy] Suc.prems(1) finS xy(3) by simp
  have "?C - insert y S = (?C - S) - {y}" by blast
  moreover have "y \<in> ?C - S" using yb xy(3) by simp
  ultimately have 2: "card (?C - insert y S) = n"
    using Suc.prems(4) by simp
  from Suc.IH [OF 1 _ _ 2] Suc.prems(2,3) yb show ?case by simp
qed

lemma connected_enough_pairs:
  assumes "maze_connected sz g" and "1 \<le> sz"
  shows "nat (sz * sz - 1) \<le> length (open_pairs sz g)"
proof -
  from assms(2) have z: "in_bounds sz (0, 0)" by (simp add: in_bounds_def)
  have "card {(0, 0) :: pos} \<le> Suc (card (inner_pairs sz g {(0, 0)}))" by simp
  from connected_pairs_bound [OF assms this, of "card ({p. in_bounds sz p} - {(0, 0)})"] z
  have "card {p. in_bounds sz p} \<le> Suc (card (pair_set sz g))" by simp
  with assms(2) have "nat (sz * sz) \<le> Suc (card (pair_set sz g))"
    by (simp add: card_in_bounds)
  then show ?thesis by (simp add: length_open_pairs)
qed

text \<open>Walls are only ever cleared: every wall of the later grid is a wall of the earlier one.\<close>

definition opened_from :: "maze_grid \<Rightarrow> maze_grid \<Rightarrow> bool" where
  "opened_from g g' =
     ((\<forall>q k. wall_at g' q k \<longrightarrow> wall_at g q k) \<and> (\<forall>q k. has_wall g' q k \<longrightarrow> has_wall g q k))"

lemma opened_from_refl: "opened_from g g"
  by (simp add: opened_from_def)

lemma opened_from_trans: "opened_from g g' \<Longrightarrow> opened_from g' g'' \<Longrightarrow> opened_from g g''"
  unfolding opened_from_def by blast

lemma opened_from_clear: "opened_from g (update_cell g p (clear_cell_wall d))"
  unfolding opened_from_def has_wall_def wall_at_def
  by (auto simp: cell_at_update clear_cell_wall_def split: option.splits if_splits)

lemma opened_from_braided: "opened_from g (braided g p d)"
  unfolding braided_def
  by (rule opened_from_trans [OF opened_from_clear opened_from_clear])

lemma braid_step_opened:
  assumes "grid_ok sz g" and "braid_step sz rnd (g, k) = Inr (g', k')"
  shows "grid_ok sz g' \<and> opened_from g g'"
  using braid_step_abs [OF assms] assms(1)
  by (auto simp: opened_from_refl opened_from_braided braided_ok)

lemma braid_loop_opened:
  "grid_ok sz (fst st) \<Longrightarrow> braid_loop sz rnd n st = Inr st' \<Longrightarrow>
     grid_ok sz (fst st') \<and> opened_from (fst st) (fst st')"
proof (induction n arbitrary: st)
  case 0
  then show ?case by (simp add: opened_from_refl)
next
  case (Suc n)
  from Suc.prems(2) obtain t where t: "braid_step sz rnd st = Inr t" "braid_loop sz rnd n t = Inr st'"
    by (cases "braid_step sz rnd st") simp_all
  from braid_step_opened [of sz "fst st" rnd "snd st" "fst t" "snd t"] Suc.prems(1) t(1)
  have 1: "grid_ok sz (fst t)" "opened_from (fst st) (fst t)" by simp_all
  from Suc.IH [OF 1(1) t(2)] 1(2) show ?case
    by (blast intro: opened_from_trans)
qed

lemma braid_loop_total:
  assumes "unit_draws rnd" "1 \<le> sz"
  shows "grid_ok sz (fst st) \<Longrightarrow> \<exists>st'. braid_loop sz rnd n st = Inr st'"
proof (induction n arbitrary: st)
  case 0
  then show ?case by simp
next
  case (Suc n)
  from braid_step_progress [OF Suc.prems assms, of "snd st"] obtain t where
    t: "braid_step sz rnd st = Inr t" by auto
  from braid_step_opened [of sz "fst st" rnd "snd st" "fst t" "snd t"] Suc.prems t
  have "grid_ok sz (fst t)" by simp
  from Suc.IH [OF this] t show ?case by simp
qed

lemma passage_mono:
  assumes "opened_from g g'" and "passage sz g a b"
  shows "passage sz g' a b"
  using assms unfolding opened_from_def passage_iff by blast

lemma connected_mono:
  assumes o: "opened_from g g'" and c: "maze_connected sz g"
  shows "maze_connected sz g'"
  unfolding maze_connected_def
proof (intro ballI)
  fix a b assume "a \<in> set (cells sz)" "b \<in> set (cells sz)"
  with c obtain p where p: "walk (passage sz g) a b p"
    unfolding maze_connected_def by blast
  then have "successively (passage sz g') p"
    unfolding walk_def by (auto elim: successively_mono intro: passage_mono [OF o])
  with p show "\<exists>p. walk (passage sz g') a b p"
    unfolding walk_def by blast
qed

lemma open_pairs_mono:
  assumes "opened_from g g'"
  shows "length (open_pairs sz g) \<le> length (open_pairs sz g')"
proof -
  have "pair_set sz g \<subseteq> pair_set sz g'"
    using passage_mono [OF assms] by (auto simp: pair_set_def)
  then show ?thesis
    unfolding length_open_pairs by (intro card_mono) simp_all
qed

lemma carve_phase_connected:
  assumes "carve_phase sz rnd = Inr s"
  shows "grid_ok sz (grid s) \<and> maze_connected sz (grid s)"
proof -
  from carve_phase_carving [OF assms] have c: "carving sz rnd s" "stack s = []" "1 \<le> sz"
    by simp_all
  from carving_inv [OF c(1)] have inv: "full_inv sz s" .
  from finished_tree(2) [OF inv c(2,3)] have "maze_connected sz (grid s)"
    by (rule unique_paths_connected)
  with inv show ?thesis by (simp add: full_inv_def carve_inv_def)
qed

text \<open>
  One extra path on the maze of size 2: the draws pick the cell \<open>(0, 0)\<close> and the second
  of its three walls, the bottom one, which is cleared together with the top wall of the
  cell below.
\<close>

definition half_draws :: "nat \<Rightarrow> real" where
  "half_draws k = (if k = 2 then 1 / 2 else 0)"

definition maze2_braided :: maze_grid where
  "maze2_braided =
     [[\<lparr>cell_x = 0, cell_y = 0,
        walls = \<lparr>top_wall = True, right_wall = False, bottom_wall = False, left_wall = True\<rparr>,
        visited = True\<rparr>,
       \<lparr>cell_x = 1, cell_y = 0,
        walls = \<lparr>top_wall = True, right_wall = True, bottom_wall = False, left_wall = False\<rparr>,
        visited = True\<rparr>],
      [\<lparr>cell_x = 0, cell_y = 1,
        walls = \<lparr>top_wall = False, right_wall = False, bottom_wall = True, left_wall = True\<rparr>,
        visited = True\<rparr>,
       \<lparr>cell_x = 1, cell_y = 1,
        walls = \<lparr>top_wall = False, right_wall = True, bottom_wall = True, left_wall = False\<rparr>,
        visited = True\<rparr>]]"

lemma braid_loop_maze2:
  "braid_loop 2 half_draws 1 (maze2, 0) = Inr (maze2_braided, 3)"
  by (simp add: braid_step_def open_wall_def Let_def half_draws_def random_index_def
        cell_at_def nth_opt_def update_cell_def clear_cell_wall_def maze2_def maze2_braided_def)

text \<open>
  Claim C6. For every well-formed grid whose graph of openings is connected and every
  random sequence, the loop that adds the extra paths returns a grid whose graph of
  openings is still connected, so that start \<open>(0, 0)\<close> and goal \<open>(N - 1, N - 1)\<close> reach each
  other, and that has at least \<open>N\<^sup>2 - 1\<close> open wall pairs and no wall that the grid did not
  have before. The maze that \<open>generateMaze\<close> returns in hard mode is connected with at
  least \<open>N\<^sup>2 - 1\<close> open wall pairs.
\<close>

theorem braiding_keeps_connected:
  assumes "unit_draws rnd" and "1 \<le> sz"
  shows "(grid_ok sz g \<and> maze_connected sz g \<longrightarrow>
           (\<exists>g' k'. braid_loop sz rnd n (g, k) = Inr (g', k')
              \<and> maze_connected sz g'
              \<and> (\<exists>p. walk (passage sz g') (0, 0) (sz - 1, sz - 1) p)
              \<and> (\<exists>p. walk (passage sz g') (sz - 1, sz - 1) (0, 0) p)
              \<and> nat (sz * sz - 1) \<le> length (open_pairs sz g')
              \<and> length (open_pairs sz g) \<le> length (open_pairs sz g')
              \<and> (\<forall>q d. has_wall g' q d \<longrightarrow> has_wall g q d)))
         \<and> (\<exists>gm. generateMaze Hard rnd sz = Inr gm \<and> maze_connected sz gm
               \<and> nat (sz * sz - 1) \<le> length (open_pairs sz gm))"
proof -
  have main: "\<exists>g' k'. braid_loop sz rnd m (g0, k0) = Inr (g', k')
              \<and> maze_connected sz g'
              \<and> (\<exists>p. walk (passage sz g') (0, 0) (sz - 1, sz - 1) p)
              \<and> (\<exists>p. walk (passage sz g') (sz - 1, sz - 1) (0, 0) p)
              \<and> nat (sz * sz - 1) \<le> length (open_pairs sz g')
              \<and> length (open_pairs sz g0) \<le> length (open_pairs sz g')
              \<and> (\<forall>q d. has_wall g' q d \<longrightarrow> has_wall g0 q d)"
    if ok: "grid_ok sz g0" and conn: "maze_connected sz g0" for g0 k0 m
  proof -
    from braid_loop_total [OF assms, of "(g0, k0)" m] ok obtain g' k' where
      r: "braid_loop sz rnd m (g0, k0) = Inr (g', k')" by auto
    from braid_loop_opened [OF _ r] ok have o: "opened_from g0 g'" by simp
    from connected_mono [OF o conn] have c: "maze_connected sz g'" .
    from assms(2) have "(0, 0) \<in> set (cells sz)" "(sz - 1, sz - 1) \<in> set (cells sz)"
      by (simp_all add: in_bounds_def)
    with c have "\<exists>p. walk (passage sz g') (0, 0) (sz - 1, sz - 1) p"
      "\<exists>p. walk (passage sz g') (sz - 1, sz - 1) (0, 0) p"
      unfolding maze_connected_def by blast+
    moreover from o have "\<forall>q d. has_wall g' q d \<longrightarrow> has_wall g0 q d"
      by (simp add: opened_from_def)
    ultimately show ?thesis
      using r c connected_enough_pairs [OF c assms(2)] open_pairs_mono [OF o] by blast
  qed
  from carve_phase_result [OF assms(2,1)] obtain s where s: "carve_phase sz rnd = Inr s"
    by blast
  from carve_phase_connected [OF s] have cs: "grid_ok sz (grid s)" "maze_connected sz (grid s)"
    by simp_all
  from main [OF cs, of "nat (extraPaths sz)" "rnd_pos s"] obtain g' k' where
    "braid_loop sz rnd (nat (extraPaths sz)) (grid s, rnd_pos s) = Inr (g', k')"
    "maze_connected sz g'" "nat (sz * sz - 1) \<le> length (open_pairs sz g')"
    by blast
  with s have "\<exists>gm. generateMaze Hard rnd sz = Inr gm \<and> maze_connected sz gm
               \<and> nat (sz * sz - 1) \<le> length (open_pairs sz gm)"
    by (simp add: generateMaze_def)
  with main show ?thesis by blast
qed

lemma unit_half_draws: "unit_draws half_draws"
  by (simp add: unit_draws_def half_draws_def)

theorem braiding_keeps_connected_witness:
  "unit_draws half_draws \<and> (1 :: int) \<le> 2 \<and> grid_ok 2 maze2 \<and> maze_connected 2 maze2
   \<and> braid_loop 2 half_draws 1 (maze2, 0) = Inr (maze2_braided, 3)
   \<and> maze_connected 2 maze2_braided
   \<and> nat (2 * 2 - 1) \<le> length (open_pairs 2 maze2_braided)
   \<and> \<not> has_wall maze2_braided (0, 0) Bottom \<and> has_wall maze2 (0, 0) Bottom"
proof -
  have p: "carve_phase 2 zero_draws = Inr carved2"
    by (simp add: carve_phase_maze2 carved2_def)
  from carve_phase_connected [OF p] have m: "grid_ok 2 maze2" "maze_connected 2 maze2"
    by (simp_all add: carved2_def)
  have w: "\<not> has_wall maze2_braided (0, 0) Bottom" "has_wall maze2 (0, 0) Bottom"
    by (simp_all add: has_wall_def cell_at_def nth_opt_def maze2_def maze2_braided_def)
  from braiding_keeps_connected [OF unit_half_draws, of 2 maze2 1 0] m braid_loop_maze2
  have "maze_connected 2 maze2_braided \<and> nat (2 * 2 - 1) \<le> length (open_pairs 2 maze2_braided)"
    by auto
  with m w braid_loop_maze2 unit_half_draws show ?thesis by simp
qed

section \<open>Fog of war\<close>

text \<open>
  Claim C8. With a finite fog radius \<open>r\<close>, a cell is visible (not in fog) exactly when
  its Chebyshev distance from the player, the larger of the two coordinate distances, is at
  most \<open>r\<close>. With radius 3 and the player at (5, 5), the cell (9, 9) is in fog and the cell
  (7, 6) is visible.
\<close>

theorem isInFog_chebyshev:
  "fogRadius cfg = Finite r \<Longrightarrow>
     (\<not> isInFog cfg p x y) = (max \<bar>x - fst p\<bar> \<bar>y - snd p\<bar> \<le> r)
     \<and> isInFog (cfg\<lparr>fogRadius := Finite 3\<rparr>) (5, 5) 9 9
     \<and> \<not> isInFog (cfg\<lparr>fogRadius := Finite 3\<rparr>) (5, 5) 7 6"
  by (auto simp: isInFog_def Let_def)

theorem isInFog_chebyshev_witness:
  "fogRadius (config_of Insane) = Finite 3
     \<and> (\<not> isInFog (config_of Insane) (5, 5) 9 9) = (max \<bar>9 - fst (5, 5)\<bar> \<bar>9 - snd (5 :: int, 5 :: int)\<bar> \<le> (3 :: int))
     \<and> isInFog (config_of Insane) (5, 5) 9 9"
  using isInFog_chebyshev [of "config_of Insane" 3 "(5, 5)" 9 9] by simp

end
